theory Spec2Isabelle
  imports Complex_Main "HOL-Library.Monad_Syntax"
begin

section \<open>Data model of \<open>Dsys_Anal\<close>\<close>

text \<open>
  The class \<open>Dsys_Anal\<close> (file \<open>Dsys_Anal.cpp\<close>) integrates particle trajectories through a
  velocity field. The value of a C++ \<open>double\<close> is read as a real number, the number type
  of the specification's data model, and the arithmetic on the stored samples is exact. The
  one place where rounding decides a discrete result, the step count of \<open>SetTime\<close>, is
  computed with the rounding of binary64 arithmetic.

  A slot of an Eigen \<open>VectorXd\<close> is a \<open>cell\<close>: \<open>Some r\<close> once a value has been stored,
  \<open>None\<close> while the slot is fresh storage that nothing has written yet (\<open>resize\<close> and
  \<open>conservativeResize\<close> do not initialise what they allocate). Arithmetic on an
  indeterminate cell gives an indeterminate cell.
\<close>

type_synonym cell = "real option"
type_synonym vec = "cell list"

definition cell2 :: "(real \<Rightarrow> real \<Rightarrow> real) \<Rightarrow> cell \<Rightarrow> cell \<Rightarrow> cell" where
  "cell2 f a b = (case a of None \<Rightarrow> None | Some a' \<Rightarrow> (case b of None \<Rightarrow> None | Some b' \<Rightarrow> Some (f a' b')))"

definition cell3 :: "(real \<Rightarrow> real \<Rightarrow> real \<Rightarrow> real) \<Rightarrow> cell \<Rightarrow> cell \<Rightarrow> cell \<Rightarrow> cell" where
  "cell3 f a b c = (case a of None \<Rightarrow> None | Some a' \<Rightarrow> cell2 (f a') b c)"

text \<open>
  Coefficient access \<open>a(i)\<close>: Eigen asserts \<open>i < a.size()\<close> and the access is undefined
  otherwise. The model returns \<open>None\<close> for an access outside the buffer.
\<close>

definition vec_get :: "vec \<Rightarrow> nat \<Rightarrow> cell option" where
  "vec_get a i = (if i < length a then Some (a ! i) else None)"

definition vec_set :: "vec \<Rightarrow> nat \<Rightarrow> cell \<Rightarrow> vec option" where
  "vec_set a i c = (if i < length a then Some (a[i := c]) else None)"

text \<open>
  \<open>a.resize(n)\<close> keeps the vector when the size does not change and otherwise replaces it
  by fresh storage; \<open>a.conservativeResize(n)\<close> keeps the leading coefficients and leaves
  the new trailing ones fresh.
\<close>

definition resize :: "nat \<Rightarrow> vec \<Rightarrow> vec" where
  "resize n a = (if length a = n then a else replicate n None)"

definition conservativeResize :: "nat \<Rightarrow> vec \<Rightarrow> vec" where
  "conservativeResize n a = take n a @ replicate (n - length a) None"

text \<open>
  The header \<open>Dsys_Anal.h\<close> is not part of the sources: the two records have the members
  that the member functions use.
\<close>

record Particle =
  x :: vec
  y :: vec

record Dsys_Anal =
  dt :: real
  tmax :: real
  t_count :: nat
  t :: vec
  parts :: "Particle list"
  t_set :: bool
  ic_set :: bool
  u :: "real \<Rightarrow> real \<Rightarrow> real \<Rightarrow> real"
  v :: "real \<Rightarrow> real \<Rightarrow> real \<Rightarrow> real"

text \<open>
  The conditions a call can raise: the three the specification names, and the
  \<open>type_error\<close> of the json library. The source itself raises only the first one
  (\<open>std::invalid_argument\<close> in \<open>SetICs\<close>). \<open>Undefined\<close> is the outcome of an access outside
  a container, which the C++ code does not check.
\<close>

datatype error = InvalidArgument | OutOfRange | IOError | TypeError

datatype status = Ok | Raised error | Undefined

section \<open>Configuration\<close>

text \<open>
  \<open>ResizeParts\<close>: every particle's buffers are resized, keeping their leading entries, to
  \<open>t_count + 1\<close>.
\<close>

definition ResizeParts :: "Dsys_Anal \<Rightarrow> Dsys_Anal" where
  "ResizeParts s =
     s\<lparr>parts := map (\<lambda>p. p\<lparr>x := conservativeResize (t_count s + 1) (x p),
                              y := conservativeResize (t_count s + 1) (y p)\<rparr>) (parts s)\<rparr>"

subsection \<open>The step count in double arithmetic\<close>

text \<open>\<open>pow2 e\<close> is the power of two with integer exponent \<open>e\<close>.\<close>

definition pow2 :: "int \<Rightarrow> real" where
  "pow2 e = (if 0 \<le> e then 2 ^ nat e else 1 / 2 ^ nat (- e))"

text \<open>The integer nearest to a real number, the even one of two equally near.\<close>

definition RN :: "real \<Rightarrow> int" where
  "RN n = (let f = \<lfloor>n\<rfloor> in
             if n - of_int f < 1 / 2 then f
             else if 1 / 2 < n - of_int f then f + 1
             else if even f then f else f + 1)"

text \<open>
  The exponent of the unit in the last place of a binary64 number near \<open>r\<close>: numbers in
  \<open>[2^e, 2^(e+1))\<close> are multiples of \<open>2^(e - 52)\<close>, and below \<open>2^-1022\<close> (subnormal numbers)
  the spacing stays \<open>2^-1074\<close>.
\<close>

definition ulp_exp :: "real \<Rightarrow> int" where
  "ulp_exp r = max \<lfloor>log 2 \<bar>r\<bar>\<rfloor> (- 1022) - 52"

text \<open>
  \<open>fl r\<close> is the binary64 number that a correctly rounded operation with exact result \<open>r\<close>
  delivers (round to nearest, ties to even); \<open>None\<close> when the result overflows to an
  infinity.
\<close>

definition fl :: "real \<Rightarrow> real option" where
  "fl r =
     (if r = 0 then Some 0
      else let w = of_int (RN (r / pow2 (ulp_exp r))) * pow2 (ulp_exp r)
           in if pow2 1024 \<le> \<bar>w\<bar> then None else Some w)"

text \<open>
  Division and addition of doubles. A division by zero gives an infinity or NaN, which is
  no number (\<open>None\<close>).
\<close>

definition fl_div :: "real \<Rightarrow> real \<Rightarrow> real option" where
  "fl_div a b = (if b = 0 then None else fl (a / b))"

definition fl_add :: "real \<Rightarrow> real \<Rightarrow> real option" where
  "fl_add a b = fl (a + b)"

text \<open>
  The conversion of a \<open>double\<close> to the integer type of \<open>t_count\<close> truncates. The header
  that declares \<open>t_count\<close> is not part of the sources; the loops compare it with a
  \<open>std::size_t\<close>, so it is taken as a natural number, and the largest step count the
  platform can carry is the parameter \<open>cap\<close>: a count up to \<open>cap\<close> fits the integer type and
  vectors of that many coefficients (and one more) can be allocated. The conversion is
  undefined when the truncated value is negative or does not fit; a vector that cannot be
  allocated makes \<open>resize\<close> throw after it has released the old storage. Either way the
  call leaves no usable object (\<open>None\<close>).
\<close>

definition to_count :: "nat \<Rightarrow> real \<Rightarrow> nat option" where
  "to_count cap r = (if r \<le> - 1 \<or> int cap < \<lfloor>r\<rfloor> then None else Some (nat \<lfloor>r\<rfloor>))"

text \<open>The statement \<open>t_count = (tmax / dt) + 1\<close>.\<close>

definition step_count :: "nat \<Rightarrow> real \<Rightarrow> real \<Rightarrow> nat option" where
  "step_count cap dt_in tmax_in = do {
     q \<leftarrow> fl_div tmax_in dt_in;
     w \<leftarrow> fl_add q 1;
     to_count cap w
   }"

subsection \<open>The configuration calls\<close>

text \<open>The loop \<open>for (i = 0; i != t_count; ++i) t(i) = dt * i\<close>, entered at index \<open>i\<close>.\<close>

function SetTime_loop :: "real \<Rightarrow> nat \<Rightarrow> nat \<Rightarrow> vec \<Rightarrow> vec option" where
  "SetTime_loop d n i a =
     (if i < n then
        (case vec_set a i (Some (d * real i)) of
           None \<Rightarrow> None
         | Some a' \<Rightarrow> SetTime_loop d n (Suc i) a')
      else Some a)"
  by pat_completeness auto
termination
  by (relation "measure (\<lambda>(d, n, i, a). n - i)") auto

declare SetTime_loop.simps [simp del]

text \<open>\<open>SetTime\<close>, on a platform with step-count limit \<open>cap\<close>.\<close>

definition SetTime :: "nat \<Rightarrow> real \<Rightarrow> real \<Rightarrow> Dsys_Anal \<Rightarrow> Dsys_Anal option" where
  "SetTime cap dt_in tmax_in s = do {
     n \<leftarrow> step_count cap dt_in tmax_in;
     tv \<leftarrow> SetTime_loop dt_in n 0 (resize n (t s));
     let s1 = s\<lparr>dt := dt_in, tmax := tmax_in, t_count := n, t := tv, t_set := True\<rparr>;
     Some (if t_set s1 \<and> ic_set s1 then ResizeParts s1 else s1)
   }"

text \<open>
  \<open>parts.resize(n)\<close> of the \<open>std::vector\<close> of particles keeps the leading particles and
  appends default-constructed ones, whose vectors are empty.
\<close>

definition vector_resize :: "nat \<Rightarrow> Particle list \<Rightarrow> Particle list" where
  "vector_resize n ps = take n ps @ replicate (n - length ps) \<lparr>x = [], y = []\<rparr>"

text \<open>
  The loop of \<open>SetICs\<close>, entered at particle \<open>n\<close>: \<open>x.resize(1)\<close>, \<open>y.resize(1)\<close>,
  \<open>x(0) = x0(n)\<close>, \<open>y(0) = y0(n)\<close>. The initial conditions are sequences of reals.
\<close>

function SetICs_loop :: "real list \<Rightarrow> real list \<Rightarrow> nat \<Rightarrow> Particle list \<Rightarrow> Particle list option" where
  "SetICs_loop x0 y0 n ps =
     (if n < length ps then
        (case (if n < length x0 then vec_set (resize 1 (x (ps ! n))) 0 (Some (x0 ! n)) else None) of
           None \<Rightarrow> None
         | Some x' \<Rightarrow>
        (case (if n < length y0 then vec_set (resize 1 (y (ps ! n))) 0 (Some (y0 ! n)) else None) of
           None \<Rightarrow> None
         | Some y' \<Rightarrow> SetICs_loop x0 y0 (Suc n) (ps[n := (ps ! n)\<lparr>x := x', y := y'\<rparr>])))
      else Some ps)"
  by pat_completeness auto
termination
  by (relation "measure (\<lambda>(x0, y0, n, ps). length ps - n)") auto

declare SetICs_loop.simps [simp del]

text \<open>
  \<open>SetICs\<close>. The result pairs the status with the object as the call leaves it, so that
  the state after a \<open>throw\<close> is part of the model.
\<close>

definition SetICs :: "real list \<Rightarrow> real list \<Rightarrow> Dsys_Anal \<Rightarrow> status \<times> Dsys_Anal" where
  "SetICs x0 y0 s =
     (if length x0 \<noteq> length y0 then (Raised InvalidArgument, s)
      else
        (case SetICs_loop x0 y0 0 (vector_resize (length x0) (parts s)) of
           None \<Rightarrow> (Undefined, s\<lparr>parts := vector_resize (length x0) (parts s)\<rparr>)
         | Some ps \<Rightarrow>
             let s1 = s\<lparr>parts := ps, ic_set := True\<rparr>
             in (Ok, if t_set s1 \<and> ic_set s1 then ResizeParts s1 else s1)))"

text \<open>\<open>SetVel\<close> stores the two velocity functions.\<close>

definition SetVel :: "(real \<Rightarrow> real \<Rightarrow> real \<Rightarrow> real) \<Rightarrow> (real \<Rightarrow> real \<Rightarrow> real \<Rightarrow> real) \<Rightarrow>
    Dsys_Anal \<Rightarrow> Dsys_Anal" where
  "SetVel u_in v_in s = s\<lparr>u := u_in, v := v_in\<rparr>"

text \<open>
  A state is ready when both configuration calls have completed: the time sequence has
  \<open>t_count\<close> entries and every position buffer has \<open>t_count + 1\<close>.
\<close>

definition ready :: "Dsys_Anal \<Rightarrow> bool" where
  "ready s \<longleftrightarrow>
     length (t s) = t_count s \<and>
     list_all (\<lambda>p. length (x p) = t_count s + 1 \<and> length (y p) = t_count s + 1) (parts s)"

text \<open>An object before any configuration: no times, no particles, both flags down.\<close>

definition blank :: "(real \<Rightarrow> real \<Rightarrow> real \<Rightarrow> real) \<Rightarrow> (real \<Rightarrow> real \<Rightarrow> real \<Rightarrow> real) \<Rightarrow> Dsys_Anal" where
  "blank uf vf = \<lparr>dt = 0, tmax = 0, t_count = 0, t = [], parts = [],
                  t_set = False, ic_set = False, u = uf, v = vf\<rparr>"

section \<open>Integrators\<close>

text \<open>The expression \<open>c + d * w\<close> of the Euler update, on cells.\<close>

definition euler :: "cell \<Rightarrow> real \<Rightarrow> cell \<Rightarrow> cell" where
  "euler c d w = cell2 (+) c (cell2 (*) (Some d) w)"

text \<open>The expression \<open>c + d * ((3. / 2.) * w - (1. / 2.) * w1)\<close> of the Adams-Bashforth update.\<close>

definition adams :: "cell \<Rightarrow> real \<Rightarrow> cell \<Rightarrow> cell \<Rightarrow> cell" where
  "adams c d w w1 =
     cell2 (+) c (cell2 (*) (Some d)
       (cell2 (-) (cell2 (*) (Some (3 / 2)) w) (cell2 (*) (Some (1 / 2)) w1)))"

text \<open>
  The body of the inner loop of \<open>MarchEE\<close> for time index \<open>i\<close> and particle \<open>n\<close>.
  \<open>parts[n]\<close> is an unchecked \<open>std::vector\<close> access.
\<close>

definition EE_body :: "nat \<Rightarrow> nat \<Rightarrow> Dsys_Anal \<Rightarrow> Dsys_Anal option" where
  "EE_body i n s =
     (if n < length (parts s) then do {
        ti \<leftarrow> vec_get (t s) i;
        xi \<leftarrow> vec_get (x (parts s ! n)) i;
        yi \<leftarrow> vec_get (y (parts s ! n)) i;
        let u_n = cell3 (u s) ti xi yi;
        let v_n = cell3 (v s) ti xi yi;
        x' \<leftarrow> vec_set (x (parts s ! n)) (i + 1) (euler xi (dt s) u_n);
        y' \<leftarrow> vec_set (y (parts s ! n)) (i + 1) (euler yi (dt s) v_n);
        Some (s\<lparr>parts := (parts s)[n := (parts s ! n)\<lparr>x := x', y := y'\<rparr>]\<rparr>)
      } else None)"

lemma EE_body_frame:
  "EE_body i n s = Some s' \<Longrightarrow>
     length (parts s') = length (parts s) \<and> t_count s' = t_count s"
  by (auto simp: EE_body_def Let_def split: if_splits Option.bind_splits)

text \<open>The inner loop \<open>for (n = 0; n != parts.size(); ++n)\<close>, entered at particle \<open>n\<close>.\<close>

function EE_parts :: "nat \<Rightarrow> nat \<Rightarrow> Dsys_Anal \<Rightarrow> Dsys_Anal option" where
  "EE_parts i n s =
     (if n < length (parts s) then
        (case EE_body i n s of
           None \<Rightarrow> None
         | Some s' \<Rightarrow> EE_parts i (Suc n) s')
      else Some s)"
  by pat_completeness auto
termination
  by (relation "measure (\<lambda>(i, n, s). length (parts s) - n)")
     (auto dest: EE_body_frame)

declare EE_parts.simps [simp del]

lemma EE_parts_frame:
  "EE_parts i n s = Some s' \<Longrightarrow> t_count s' = t_count s"
proof (induction i n s rule: EE_parts.induct)
  case (1 i n s)
  show ?case
  proof (cases "n < length (parts s)")
    case True
    with "1.prems" obtain s1 where b: "EE_body i n s = Some s1"
      and r: "EE_parts i (Suc n) s1 = Some s'"
      by (subst (asm) EE_parts.simps) (auto split: option.splits)
    from "1.IH"[OF True b r] EE_body_frame[OF b] show ?thesis by simp
  next
    case False
    with "1.prems" show ?thesis by (subst (asm) EE_parts.simps) simp
  qed
qed

text \<open>The outer loop \<open>for (i = 0; i != t_count; ++i)\<close>, entered at time index \<open>i\<close>.\<close>

function EE_time :: "nat \<Rightarrow> Dsys_Anal \<Rightarrow> Dsys_Anal option" where
  "EE_time i s =
     (if i < t_count s then
        (case EE_parts i 0 s of
           None \<Rightarrow> None
         | Some s' \<Rightarrow> EE_time (Suc i) s')
      else Some s)"
  by pat_completeness auto
termination
  by (relation "measure (\<lambda>(i, s). t_count s - i)")
     (auto dest: EE_parts_frame)

declare EE_time.simps [simp del]

definition MarchEE :: "Dsys_Anal \<Rightarrow> Dsys_Anal option" where
  "MarchEE s = EE_time 0 s"

text \<open>
  The body of the inner loop of \<open>MarchAB\<close>. The loop state carries the local vectors
  \<open>u_nm1\<close> and \<open>v_nm1\<close> beside the object.
\<close>

definition AB_body :: "nat \<Rightarrow> nat \<Rightarrow> Dsys_Anal \<times> vec \<times> vec \<Rightarrow> (Dsys_Anal \<times> vec \<times> vec) option" where
  "AB_body i n = (\<lambda>(s, u_nm1, v_nm1).
     if n < length (parts s) then do {
        ti \<leftarrow> vec_get (t s) i;
        xi \<leftarrow> vec_get (x (parts s ! n)) i;
        yi \<leftarrow> vec_get (y (parts s ! n)) i;
        let u_n = cell3 (u s) ti xi yi;
        let v_n = cell3 (v s) ti xi yi;
        p' \<leftarrow> (if i = 0 then do {
                 x' \<leftarrow> vec_set (x (parts s ! n)) (i + 1) (euler xi (dt s) u_n);
                 y' \<leftarrow> vec_set (y (parts s ! n)) (i + 1) (euler yi (dt s) v_n);
                 Some ((parts s ! n)\<lparr>x := x', y := y'\<rparr>)
               } else do {
                 um \<leftarrow> vec_get u_nm1 n;
                 x' \<leftarrow> vec_set (x (parts s ! n)) (i + 1) (adams xi (dt s) u_n um);
                 vm \<leftarrow> vec_get v_nm1 n;
                 y' \<leftarrow> vec_set (y (parts s ! n)) (i + 1) (adams yi (dt s) v_n vm);
                 Some ((parts s ! n)\<lparr>x := x', y := y'\<rparr>)
               });
        u' \<leftarrow> vec_set u_nm1 n u_n;
        v' \<leftarrow> vec_set v_nm1 n v_n;
        Some (s\<lparr>parts := (parts s)[n := p']\<rparr>, u', v')
      } else None)"

lemma AB_body_frame:
  "AB_body i n (s, a, b) = Some (s', a', b') \<Longrightarrow>
     length (parts s') = length (parts s) \<and> t_count s' = t_count s"
  by (auto simp: AB_body_def Let_def split: if_splits Option.bind_splits)

function AB_parts :: "nat \<Rightarrow> nat \<Rightarrow> Dsys_Anal \<times> vec \<times> vec \<Rightarrow> (Dsys_Anal \<times> vec \<times> vec) option" where
  "AB_parts i n c =
     (if n < length (parts (fst c)) then
        (case AB_body i n c of
           None \<Rightarrow> None
         | Some c' \<Rightarrow> AB_parts i (Suc n) c')
      else Some c)"
  by pat_completeness auto
termination
  by (relation "measure (\<lambda>(i, n, c). length (parts (fst c)) - n)")
     (auto dest: AB_body_frame)

declare AB_parts.simps [simp del]

lemma AB_parts_frame:
  "AB_parts i n c = Some c' \<Longrightarrow> t_count (fst c') = t_count (fst c)"
proof (induction i n c rule: AB_parts.induct)
  case (1 i n c)
  show ?case
  proof (cases "n < length (parts (fst c))")
    case True
    with "1.prems" obtain c1 where b: "AB_body i n c = Some c1"
      and r: "AB_parts i (Suc n) c1 = Some c'"
      by (subst (asm) AB_parts.simps) (auto split: option.splits)
    from AB_body_frame[of i n "fst c" "fst (snd c)" "snd (snd c)" "fst c1" "fst (snd c1)" "snd (snd c1)"] b
    have "t_count (fst c1) = t_count (fst c)" by simp
    with "1.IH"[OF True b r] show ?thesis by simp
  next
    case False
    with "1.prems" show ?thesis by (subst (asm) AB_parts.simps) simp
  qed
qed

function AB_time :: "nat \<Rightarrow> Dsys_Anal \<times> vec \<times> vec \<Rightarrow> (Dsys_Anal \<times> vec \<times> vec) option" where
  "AB_time i c =
     (if i < t_count (fst c) then
        (case AB_parts i 0 c of
           None \<Rightarrow> None
         | Some c' \<Rightarrow> AB_time (Suc i) c')
      else Some c)"
  by pat_completeness auto
termination
  by (relation "measure (\<lambda>(i, c). t_count (fst c) - i)")
     (auto dest: AB_parts_frame)

declare AB_time.simps [simp del]

text \<open>
  \<open>MarchAB\<close>: the local vectors start as fresh storage of \<open>parts.size()\<close> slots and are
  dropped on return.
\<close>

definition MarchAB :: "Dsys_Anal \<Rightarrow> Dsys_Anal option" where
  "MarchAB s =
     map_option fst
       (AB_time 0 (s, replicate (length (parts s)) None, replicate (length (parts s)) None))"

section \<open>A worked example\<close>

text \<open>
  Two particles in the field \<open>u = 1\<close>, \<open>v = t\<close>, with step size 1 and end time 1: the state
  after both configuration calls, and the states \<open>MarchEE\<close> and \<open>MarchAB\<close> leave.
\<close>

definition shear :: Dsys_Anal where
  "shear = \<lparr>dt = 1, tmax = 1, t_count = 2, t = [Some 0, Some 1],
             parts = [\<lparr>x = [Some 0, None, None], y = [Some 0, None, None]\<rparr>,
                      \<lparr>x = [Some 5, None, None], y = [Some 7, None, None]\<rparr>],
             t_set = True, ic_set = True,
             u = (\<lambda>tm px py. 1), v = (\<lambda>tm px py. tm)\<rparr>"

definition shear_EE :: Dsys_Anal where
  "shear_EE = shear\<lparr>parts := [\<lparr>x = [Some 0, Some 1, Some 2], y = [Some 0, Some 0, Some 1]\<rparr>,
                      \<lparr>x = [Some 5, Some 6, Some 7], y = [Some 7, Some 7, Some 8]\<rparr>]\<rparr>"

definition shear_AB :: Dsys_Anal where
  "shear_AB = shear\<lparr>parts := [\<lparr>x = [Some 0, Some 1, Some 2], y = [Some 0, Some 0, Some (3 / 2)]\<rparr>,
                      \<lparr>x = [Some 5, Some 6, Some 7], y = [Some 7, Some 7, Some (17 / 2)]\<rparr>]\<rparr>"

section \<open>Time grid\<close>

lemma SetTime_loop_result:
  "length a = n \<Longrightarrow> i \<le> n \<Longrightarrow>
   SetTime_loop d n i a = Some (take i a @ map (\<lambda>k. Some (d * real k)) [i..<n])"
proof (induction "n - i" arbitrary: i a)
  case 0
  then show ?case by (simp add: SetTime_loop.simps)
next
  case (Suc m)
  then have lt: "i < n" by simp
  have len: "length (a[i := Some (d * real i)]) = n" using Suc.prems by simp
  have step: "SetTime_loop d n i a = SetTime_loop d n (Suc i) (a[i := Some (d * real i)])"
    using lt Suc.prems by (subst SetTime_loop.simps) (simp add: vec_set_def)
  have "m = n - Suc i" using Suc.hyps(2) by simp
  from Suc.hyps(1)[OF this len] lt
  have "SetTime_loop d n (Suc i) (a[i := Some (d * real i)]) =
        Some (take (Suc i) (a[i := Some (d * real i)]) @ map (\<lambda>k. Some (d * real k)) [Suc i..<n])"
    by simp
  moreover have "take (Suc i) (a[i := Some (d * real i)]) = take i a @ [Some (d * real i)]"
    using lt Suc.prems by (simp add: take_Suc_conv_app_nth)
  moreover have "[i..<n] = i # [Suc i..<n]" using lt by (simp add: upt_conv_Cons)
  ultimately show ?case using step by simp
qed

lemma length_resize: "length (resize n a) = n"
  by (simp add: resize_def)

lemma SetTime_loop_fresh:
  "SetTime_loop d n 0 (resize n a) = Some (map (\<lambda>k. Some (d * real k)) [0..<n])"
  using SetTime_loop_result[of "resize n a" n 0 d] by (simp add: length_resize)

subsection \<open>Rounding to binary64\<close>

lemma pow2_powr: "pow2 e = 2 powr (of_int e)"
  by (simp add: pow2_def powr_int)

lemma pow2_pos [simp]: "0 < pow2 e"
  by (simp add: pow2_powr)

lemma pow2_nonneg [simp]: "0 \<le> pow2 e"
  using pow2_pos[of e] by linarith

lemma pow2_neq0 [simp]: "pow2 e \<noteq> 0"
  using pow2_pos[of e] by linarith

lemma pow2_add: "pow2 (a + b) = pow2 a * pow2 b"
  by (simp add: pow2_powr powr_add)

lemma pow2_mono: "a \<le> b \<Longrightarrow> pow2 a \<le> pow2 b"
  by (simp add: pow2_powr)

lemma pow2_nat: "pow2 (int k) = 2 ^ k"
  by (simp add: pow2_def)

lemma RN_ge: "of_int j \<le> n \<Longrightarrow> j \<le> RN n"
proof -
  assume "of_int j \<le> n"
  then have "j \<le> \<lfloor>n\<rfloor>" by (simp add: le_floor_iff)
  then show ?thesis by (simp add: RN_def Let_def)
qed

lemma RN_le: "n \<le> of_int j \<Longrightarrow> RN n \<le> j"
proof -
  assume a: "n \<le> of_int j"
  show ?thesis
  proof (cases "n = of_int j")
    case True
    then show ?thesis by (simp add: RN_def)
  next
    case False
    with a have "n < of_int j" by simp
    then have "\<lfloor>n\<rfloor> < j" by (simp add: floor_less_iff)
    then show ?thesis by (simp add: RN_def Let_def)
  qed
qed

lemma ulp_exp_eq:
  assumes "pow2 e \<le> \<bar>r\<bar>" "\<bar>r\<bar> < pow2 (e + 1)"
  shows "ulp_exp r = max e (- 1022) - 52"
proof -
  have "0 < \<bar>r\<bar>" using assms(1) pow2_pos[of e] by linarith
  then have "\<lfloor>log 2 \<bar>r\<bar>\<rfloor> = e"
    using assms by (simp add: floor_log_eq_powr_iff pow2_powr)
  then show ?thesis by (simp add: ulp_exp_def)
qed

lemma fl_eval:
  assumes "pow2 e \<le> \<bar>r\<bar>" "\<bar>r\<bar> < pow2 (e + 1)" "q = pow2 (max e (- 1022) - 52)"
    "w = of_int (RN (r / q)) * q" "\<bar>w\<bar> < pow2 1024"
  shows "fl r = Some w"
proof -
  have "0 < \<bar>r\<bar>" using assms(1) pow2_pos[of e] by linarith
  then have "r \<noteq> 0" by simp
  then show ?thesis
    using ulp_exp_eq[OF assms(1,2)] assms(3-5) by (simp add: fl_def Let_def)
qed

lemma pow2_le_iff: "pow2 a \<le> pow2 b \<longleftrightarrow> a \<le> b"
  by (simp add: pow2_powr)

lemma pow2_less_iff: "pow2 a < pow2 b \<longleftrightarrow> a < b"
  by (simp add: pow2_powr)

lemma binade:
  assumes "0 < r"
  shows "pow2 \<lfloor>log 2 r\<rfloor> \<le> r" "r < pow2 (\<lfloor>log 2 r\<rfloor> + 1)"
  using floor_log_eq_powr_iff[of r 2 "\<lfloor>log 2 r\<rfloor>"] assms by (simp_all add: pow2_powr)

lemma scaled_int:
  assumes "E \<le> 0"
  shows "of_int j / pow2 E = of_int (j * 2 ^ nat (- E))"
    and "of_int (j * 2 ^ nat (- E)) * pow2 E = of_int j"
  using assms by (simp_all add: pow2_def)

lemma fl_pos:
  assumes "0 < r"
  shows "fl r = (let w = of_int (RN (r / pow2 (ulp_exp r))) * pow2 (ulp_exp r)
                 in if pow2 1024 \<le> w then None else Some w)"
    and "0 \<le> of_int (RN (r / pow2 (ulp_exp r))) * pow2 (ulp_exp r)"
proof -
  have "0 \<le> r / pow2 (ulp_exp r)" using assms by (simp add: divide_nonneg_pos)
  then have "0 \<le> RN (r / pow2 (ulp_exp r))" using RN_ge[of 0] by simp
  then show nn: "0 \<le> of_int (RN (r / pow2 (ulp_exp r))) * pow2 (ulp_exp r)" by simp
  then show "fl r = (let w = of_int (RN (r / pow2 (ulp_exp r))) * pow2 (ulp_exp r)
                 in if pow2 1024 \<le> w then None else Some w)"
    using assms by (simp add: fl_def Let_def)
qed

lemma int_le_pow2_53: "j \<le> 2 ^ 53 \<Longrightarrow> (of_int j :: real) \<le> pow2 53"
proof -
  assume "j \<le> 2 ^ 53"
  then have "(of_int j :: real) \<le> of_int (2 ^ 53)" by (simp only: of_int_le_iff)
  then show ?thesis by (simp add: pow2_def)
qed

lemma pow2_52: "pow2 52 = of_int (2 ^ 52)"
  by (simp add: pow2_def)

lemma fl_le_int:
  assumes "0 \<le> r" "r \<le> of_int j" "j \<le> 2 ^ 53"
  shows "\<exists>w. fl r = Some w \<and> 0 \<le> w \<and> w \<le> of_int j"
proof (cases "r = 0")
  case True
  with assms(2) show ?thesis by (simp add: fl_def)
next
  case False
  with assms(1) have pos: "0 < r" by simp
  let ?e = "\<lfloor>log 2 r\<rfloor>"
  let ?E = "ulp_exp r"
  let ?w = "of_int (RN (r / pow2 ?E)) * pow2 ?E"
  have E: "?E = max ?e (- 1022) - 52" using pos by (simp add: ulp_exp_def)
  have jr: "(of_int j :: real) \<le> pow2 53" by (rule int_le_pow2_53[OF assms(3)])
  have "pow2 ?e \<le> pow2 53" using binade(1)[OF pos] assms(2) jr by linarith
  then have e53: "?e \<le> 53" by (simp add: pow2_le_iff)
  have nn: "0 \<le> ?w" by (rule fl_pos(2)[OF pos])
  have le: "?w \<le> of_int j"
  proof (cases "?E \<le> 0")
    case True
    have "r / pow2 ?E \<le> of_int j / pow2 ?E" using assms(2) by (simp add: divide_right_mono)
    then have "RN (r / pow2 ?E) \<le> j * 2 ^ nat (- ?E)"
      using scaled_int(1)[OF True, of j] RN_le by simp
    then have "(of_int (RN (r / pow2 ?E)) :: real) \<le> of_int (j * 2 ^ nat (- ?E))"
      by (simp only: of_int_le_iff)
    then have "?w \<le> of_int (j * 2 ^ nat (- ?E)) * pow2 ?E"
      by (simp add: mult_right_mono)
    then show ?thesis by (simp only: scaled_int(2)[OF True])
  next
    case False
    with E e53 have e: "?e = 53" and E1: "?E = 1" by linarith+
    have "pow2 53 \<le> r" using binade(1)[OF pos] e by simp
    with assms(2) jr have r: "r = pow2 53" and j: "(of_int j :: real) = pow2 53" by linarith+
    have "pow2 53 = pow2 52 * pow2 1" using pow2_add[of 52 1] by simp
    then have "r / pow2 ?E = pow2 52" using r E1 by simp
    then have "r / pow2 ?E = of_int (2 ^ 52)" by (simp only: pow2_52)
    then have "RN (r / pow2 ?E) = 2 ^ 52" by (simp only: RN_def Let_def floor_of_int) simp
    then have "?w = pow2 52 * pow2 1" using E1 by (simp add: pow2_52)
    then have "?w = pow2 53" using pow2_add[of 52 1] by simp
    then show ?thesis using j by simp
  qed
  have "pow2 53 < pow2 1024" by (simp add: pow2_less_iff)
  then have "?w < pow2 1024" using le jr by linarith
  then have "fl r = Some ?w" using fl_pos(1)[OF pos] by (simp add: Let_def)
  then show ?thesis using nn le by simp
qed

lemma fl_ge_int:
  assumes "0 \<le> j" "j \<le> 2 ^ 53" "of_int j \<le> r" "fl r = Some z"
  shows "of_int j \<le> z"
proof (cases "r = 0")
  case True
  with assms show ?thesis by (simp add: fl_def)
next
  case False
  with assms(1,3) have pos: "0 < r" by (smt (verit) of_int_nonneg)
  let ?e = "\<lfloor>log 2 r\<rfloor>"
  let ?E = "ulp_exp r"
  let ?w = "of_int (RN (r / pow2 ?E)) * pow2 ?E"
  have E: "?E = max ?e (- 1022) - 52" using pos by (simp add: ulp_exp_def)
  have jr: "(of_int j :: real) \<le> pow2 53" by (rule int_le_pow2_53[OF assms(2)])
  have z: "z = ?w" using assms(4) fl_pos(1)[OF pos] by (simp add: Let_def split: if_splits)
  have "of_int j \<le> ?w"
  proof (cases "?E \<le> 0")
    case True
    have "of_int j / pow2 ?E \<le> r / pow2 ?E" using assms(3) by (simp add: divide_right_mono)
    then have "j * 2 ^ nat (- ?E) \<le> RN (r / pow2 ?E)"
      using scaled_int(1)[OF True, of j] RN_ge by simp
    then have "(of_int (j * 2 ^ nat (- ?E)) :: real) \<le> of_int (RN (r / pow2 ?E))"
      by (simp only: of_int_le_iff)
    then have "of_int (j * 2 ^ nat (- ?E)) * pow2 ?E \<le> ?w"
      by (simp add: mult_right_mono)
    then show ?thesis by (simp only: scaled_int(2)[OF True])
  next
    case False
    with E have e: "53 \<le> ?e" and Ee: "?E = ?e - 52" by linarith+
    have "pow2 ?e = pow2 52 * pow2 ?E" using Ee pow2_add[of 52 "?e - 52"] by simp
    then have "pow2 52 * pow2 ?E \<le> r" using binade(1)[OF pos] by simp
    then have "pow2 52 \<le> r / pow2 ?E" by (simp add: pos_le_divide_eq)
    then have "of_int (2 ^ 52) \<le> r / pow2 ?E" by (simp only: pow2_52)
    then have "2 ^ 52 \<le> RN (r / pow2 ?E)" by (rule RN_ge)
    then have "(of_int (2 ^ 52) :: real) \<le> of_int (RN (r / pow2 ?E))"
      by (simp only: of_int_le_iff)
    then have "pow2 52 \<le> of_int (RN (r / pow2 ?E))" by (simp only: pow2_52)
    then have "pow2 52 * pow2 ?E \<le> ?w" by (simp add: mult_right_mono)
    moreover have "pow2 53 \<le> pow2 ?e" using e by (simp add: pow2_le_iff)
    moreover have "pow2 ?e = pow2 52 * pow2 ?E" using Ee pow2_add[of 52 "?e - 52"] by simp
    ultimately show ?thesis using jr by linarith
  qed
  with z show ?thesis by simp
qed

lemma fl_of_int:
  assumes "0 \<le> j" "j \<le> 2 ^ 53"
  shows "fl (of_int j) = Some (of_int j)"
proof -
  from fl_le_int[of "of_int j" j] assms obtain w where
    w: "fl (of_int j) = Some w" "w \<le> of_int j" by auto
  from fl_ge_int[OF assms _ w(1)] have "of_int j \<le> w" by simp
  with w show ?thesis by simp
qed

lemma RN_half_up: "RN (18014398509481983 / 2) = 9007199254740992"
  by (simp add: RN_def Let_def)

lemma fl_two_minus: "fl (2 - 1 / 2 ^ 53) = Some 2"
proof (rule fl_eval[of 0 _ "1 / 2 ^ 52"])
  show "pow2 0 \<le> \<bar>2 - 1 / 2 ^ 53 :: real\<bar>" by (simp add: pow2_def)
  show "\<bar>2 - 1 / 2 ^ 53 :: real\<bar> < pow2 (0 + 1)" by (simp add: pow2_def)
  show "1 / 2 ^ 52 = pow2 (max 0 (- 1022) - 52)" by (simp add: pow2_def)
  have "(2 - 1 / 2 ^ 53) / (1 / 2 ^ 52) = (18014398509481983 / 2 :: real)" by simp
  then show "2 = real_of_int (RN ((2 - 1 / 2 ^ 53) / (1 / 2 ^ 52))) * (1 / 2 ^ 52)"
    by (simp add: RN_half_up)
  show "\<bar>2 :: real\<bar> < pow2 1024" by (simp add: pow2_def)
qed

lemma fl_one_minus: "fl (1 - 1 / 2 ^ 53) = Some (1 - 1 / 2 ^ 53)"
proof (rule fl_eval[of "- 1" _ "1 / 2 ^ 53"])
  show "pow2 (- 1) \<le> \<bar>1 - 1 / 2 ^ 53 :: real\<bar>" by (simp add: pow2_def)
  show "\<bar>1 - 1 / 2 ^ 53 :: real\<bar> < pow2 (- 1 + 1)" by (simp add: pow2_def)
  show "1 / 2 ^ 53 = pow2 (max (- 1) (- 1022) - 52)" by (simp add: pow2_def)
  have "(1 - 1 / 2 ^ 53) / (1 / 2 ^ 53) = (of_int 9007199254740991 :: real)" by simp
  then have "RN ((1 - 1 / 2 ^ 53) / (1 / 2 ^ 53)) = 9007199254740991"
    by (simp only: RN_def Let_def floor_of_int) simp
  then show "1 - 1 / 2 ^ 53 = real_of_int (RN ((1 - 1 / 2 ^ 53) / (1 / 2 ^ 53))) * (1 / 2 ^ 53)"
    by simp
  show "\<bar>1 - 1 / 2 ^ 53 :: real\<bar> < pow2 1024" by (simp add: pow2_def)
qed

subsection \<open>The step count\<close>

lemma step_count_bracket:
  assumes "0 < d" "0 \<le> m" "\<lfloor>m / d\<rfloor> + 2 \<le> int cap" "cap \<le> 2 ^ 53"
  shows "\<exists>n. step_count cap d m = Some n \<and> 0 < n \<and>
           (int n = \<lfloor>m / d\<rfloor> + 1 \<or> int n = \<lfloor>m / d\<rfloor> + 2)"
proof -
  let ?k = "\<lfloor>m / d\<rfloor>"
  have r0: "0 \<le> m / d" using assms(1,2) by simp
  then have k0: "0 \<le> ?k" by simp
  have c53: "int cap \<le> 2 ^ 53" using assms(4) by (metis of_nat_le_iff of_nat_numeral of_nat_power)
  have k53: "?k + 2 \<le> 2 ^ 53" using assms(3) c53 by linarith
  have lo: "of_int ?k \<le> m / d" and hi: "m / d \<le> of_int (?k + 1)"
    by linarith+
  from fl_le_int[OF r0 hi] k53 obtain q where
    q: "fl (m / d) = Some q" "q \<le> of_int (?k + 1)" by auto
  have qk: "of_int ?k \<le> q" using fl_ge_int[OF k0 _ lo q(1)] k53 by simp
  have q0: "0 \<le> q + 1" using qk k0 by (smt (verit) of_int_nonneg)
  have hi2: "q + 1 \<le> of_int (?k + 2)" using q(2) by simp
  have lo2: "of_int (?k + 1) \<le> q + 1" using qk by simp
  from fl_le_int[OF q0 hi2 k53] obtain w where
    w: "fl (q + 1) = Some w" "w \<le> of_int (?k + 2)" by auto
  have wk: "of_int (?k + 1) \<le> w" using fl_ge_int[OF _ _ lo2 w(1)] k0 k53 by simp
  have fw: "?k + 1 \<le> \<lfloor>w\<rfloor>" "\<lfloor>w\<rfloor> \<le> ?k + 2"
    using wk w(2) by (simp_all add: le_floor_iff floor_le_iff)
  have w1: "\<not> w \<le> - 1" using wk k0 by (smt (verit) of_int_nonneg of_int_add of_int_1)
  have sc: "step_count cap d m = Some (nat \<lfloor>w\<rfloor>)"
    using assms(1,3) q(1) w(1) fw w1 by (simp add: step_count_def fl_div_def fl_add_def to_count_def)
  have "0 < nat \<lfloor>w\<rfloor>" using fw k0 by linarith
  moreover have "int (nat \<lfloor>w\<rfloor>) = ?k + 1 \<or> int (nat \<lfloor>w\<rfloor>) = ?k + 2" using fw k0 by linarith
  ultimately show ?thesis using sc by blast
qed

lemma step_count_exact:
  assumes "0 < d" "0 \<le> m" "fl (m / d) = Some (m / d)" "fl (m / d + 1) = Some (m / d + 1)"
    "\<lfloor>m / d\<rfloor> + 1 \<le> int cap"
  shows "step_count cap d m = Some (nat (\<lfloor>m / d\<rfloor> + 1))"
proof -
  have "0 \<le> m / d" using assms(1,2) by simp
  then have "\<not> m / d + 1 \<le> - 1" by linarith
  moreover have "\<lfloor>m / d + 1\<rfloor> = \<lfloor>m / d\<rfloor> + 1" by simp
  ultimately show ?thesis
    using assms by (simp add: step_count_def fl_div_def fl_add_def to_count_def)
qed

lemma step_count_int:
  assumes "0 \<le> k" "int k + 1 \<le> int cap" "cap \<le> 2 ^ 53"
  shows "step_count cap 1 (real k) = Some (k + 1)"
proof -
  have c53: "int cap \<le> 2 ^ 53" using assms(3) by (metis of_nat_le_iff of_nat_numeral of_nat_power)
  have a: "fl (real k / 1) = Some (real k / 1)"
    using fl_of_int[of "int k"] assms(2) c53 by simp
  have b: "fl (real k / 1 + 1) = Some (real k / 1 + 1)"
    using fl_of_int[of "int k + 1"] assms(2) c53 by (simp add: add.commute)
  from step_count_exact[OF _ _ a b, of cap] assms(2) show ?thesis
    by (simp add: nat_add_distrib)
qed

lemma step_count_rounds_up:
  "step_count 2147483647 1 (1 - 1 / 2 ^ 53) = Some 2"
  using fl_two_minus fl_one_minus by (simp add: step_count_def fl_div_def fl_add_def to_count_def)

text \<open>
  Two more inputs where rounding or the platform limit decides. The double nearest to
  \<open>0.1\<close> is \<open>3602879701896397 / 2^55\<close>; dividing 1 by it rounds to 10, so the count is 11, one
  more than \<open>floor (tmax / dt) + 1\<close>. A count beyond the limit builds no grid.
\<close>

lemma fl_ten: "fl (1 / (3602879701896397 / 36028797018963968)) = Some 10"
proof (rule fl_eval[of 3 _ "1 / 2 ^ 49"])
  show "pow2 3 \<le> \<bar>1 / (3602879701896397 / 36028797018963968) :: real\<bar>" by (simp add: pow2_def)
  show "\<bar>1 / (3602879701896397 / 36028797018963968) :: real\<bar> < pow2 (3 + 1)" by (simp add: pow2_def)
  show "1 / 2 ^ 49 = pow2 (max 3 (- 1022) - 52)" by (simp add: pow2_def)
  have "RN (1 / (3602879701896397 / 36028797018963968) / (1 / 2 ^ 49)) = 5629499534213120"
    by (simp add: RN_def Let_def)
  then show "10 = real_of_int (RN (1 / (3602879701896397 / 36028797018963968) / (1 / 2 ^ 49))) * (1 / 2 ^ 49)"
    by simp
  show "\<bar>10 :: real\<bar> < pow2 1024" by (simp add: pow2_def)
qed

lemma step_count_tenth:
  "step_count 2147483647 (3602879701896397 / 36028797018963968) 1 = Some 11 \<and>
   \<lfloor>1 / (3602879701896397 / 36028797018963968 :: real)\<rfloor> + 1 = 10"
proof -
  have "fl (10 + 1) = Some 11" using fl_of_int[of 11] by simp
  then show ?thesis
    using fl_ten by (simp add: step_count_def fl_div_def fl_add_def to_count_def)
qed

lemma step_count_too_large: "step_count 2147483647 1 3000000000 = None"
proof -
  have "fl (3000000000 / 1) = Some 3000000000" "fl (3000000000 + 1) = Some 3000000001"
    using fl_of_int[of 3000000000] fl_of_int[of 3000000001] by simp_all
  then show ?thesis by (simp add: step_count_def fl_div_def fl_add_def to_count_def)
qed

lemma SetTime_of_count:
  assumes "step_count cap d m = Some n"
  shows "SetTime cap d m s =
     Some (let s1 = s\<lparr>dt := d, tmax := m, t_count := n,
                       t := map (\<lambda>k. Some (d * real k)) [0..<n], t_set := True\<rparr>
           in if ic_set s then ResizeParts s1 else s1)"
  using assms by (simp add: SetTime_def SetTime_loop_fresh Let_def)


text \<open>
  C3 (amended). For a step size \<open>d > 0\<close> and an end time \<open>m \<ge> 0\<close> whose step count the
  platform can carry, configuring the time grid succeeds. The time sequence has \<open>t_count\<close>
  entries, where \<open>t_count\<close> is the truncated double value of \<open>(m / d) + 1\<close>: this is
  \<open>floor (m / d) + 1\<close> when the quotient and the sum are computed without rounding, and in
  general \<open>floor (m / d) + 1\<close> or one more (when rounding reaches the next integer). The
  first entry is \<open>0\<close>, entry \<open>i\<close> is \<open>i * d\<close>, and the entries are strictly increasing.
\<close>

theorem SetTime_grid:
  assumes "0 < d" "0 \<le> m" "\<lfloor>m / d\<rfloor> + 2 \<le> int cap" "cap \<le> 2 ^ 53"
  shows "\<exists>s'. SetTime cap d m s = Some s' \<and>
           step_count cap d m = Some (t_count s') \<and>
           length (t s') = t_count s' \<and>
           (int (t_count s') = \<lfloor>m / d\<rfloor> + 1 \<or> int (t_count s') = \<lfloor>m / d\<rfloor> + 2) \<and>
           (fl (m / d) = Some (m / d) \<and> fl (m / d + 1) = Some (m / d + 1) \<longrightarrow>
              int (t_count s') = \<lfloor>m / d\<rfloor> + 1) \<and>
           t s' ! 0 = Some 0 \<and>
           (\<forall>i < length (t s'). t s' ! i = Some (real i * d)) \<and>
           (\<forall>i j. i < j \<and> j < length (t s') \<longrightarrow> the (t s' ! i) < the (t s' ! j))"
proof -
  from step_count_bracket[OF assms] obtain n where
    sc: "step_count cap d m = Some n" and pos: "0 < n" and
    br: "int n = \<lfloor>m / d\<rfloor> + 1 \<or> int n = \<lfloor>m / d\<rfloor> + 2"
    by blast
  let ?tv = "map (\<lambda>k. Some (d * real k)) [0..<n]"
  obtain s' where s': "SetTime cap d m s = Some s'" and tc: "t_count s' = n" and tv: "t s' = ?tv"
    using SetTime_of_count[OF sc, of s] by (simp add: Let_def ResizeParts_def)
  have len: "length (t s') = t_count s'" using tv tc by simp
  have ex: "fl (m / d) = Some (m / d) \<and> fl (m / d + 1) = Some (m / d + 1) \<longrightarrow>
              int (t_count s') = \<lfloor>m / d\<rfloor> + 1"
  proof
    assume e: "fl (m / d) = Some (m / d) \<and> fl (m / d + 1) = Some (m / d + 1)"
    have "0 \<le> \<lfloor>m / d\<rfloor>" using assms(1,2) by simp
    moreover have "\<lfloor>m / d\<rfloor> + 1 \<le> int cap" using assms(3) by linarith
    ultimately show "int (t_count s') = \<lfloor>m / d\<rfloor> + 1"
      using step_count_exact[OF assms(1,2), of cap] e sc tc by simp
  qed
  have first: "t s' ! 0 = Some 0" using tv pos by simp
  have each: "\<forall>i < length (t s'). t s' ! i = Some (real i * d)"
    using tv by (simp add: mult.commute)
  have incr: "\<forall>i j. i < j \<and> j < length (t s') \<longrightarrow> the (t s' ! i) < the (t s' ! j)"
    using tv assms(1) by simp
  show ?thesis using s' sc tc len br ex first each incr by blast
qed

theorem SetTime_grid_witness:
  "(0::real) < 1/2 \<and> (0::real) \<le> 1 \<and> \<lfloor>(1::real) / (1/2)\<rfloor> + 2 \<le> int 2147483647 \<and>
   (2147483647::nat) \<le> 2 ^ 53 \<and>
   (\<exists>s'. SetTime 2147483647 (1/2) 1 (blank (\<lambda>tm px py. 1) (\<lambda>tm px py. 0)) = Some s' \<and>
         t_count s' = 3 \<and> length (t s') = 3 \<and> t s' ! 0 = Some 0 \<and> t s' ! 2 = Some 1 \<and>
         the (t s' ! 1) < the (t s' ! 2))"
proof -
  have h: "(0::real) < 1/2" "(0::real) \<le> 1" "\<lfloor>(1::real) / (1/2)\<rfloor> + 2 \<le> int 2147483647"
    "(2147483647::nat) \<le> 2 ^ 53" by simp_all
  have e: "fl ((1::real) / (1/2)) = Some (1 / (1/2))" "fl ((1::real) / (1/2) + 1) = Some (1 / (1/2) + 1)"
    using fl_of_int[of 2] fl_of_int[of 3] by simp_all
  from SetTime_grid[OF h, of "blank (\<lambda>tm px py. 1) (\<lambda>tm px py. 0)"]
  obtain s' where s': "SetTime 2147483647 (1/2) 1 (blank (\<lambda>tm px py. 1) (\<lambda>tm px py. 0)) = Some s'"
    and len: "length (t s') = t_count s'"
    and ex: "fl ((1::real) / (1/2)) = Some (1 / (1/2)) \<and> fl ((1::real) / (1/2) + 1) = Some (1 / (1/2) + 1) \<longrightarrow>
              int (t_count s') = \<lfloor>(1::real) / (1/2)\<rfloor> + 1"
    and first: "t s' ! 0 = Some 0"
    and each: "\<forall>i < length (t s'). t s' ! i = Some (real i * (1/2))"
    and incr: "\<forall>i j. i < j \<and> j < length (t s') \<longrightarrow> the (t s' ! i) < the (t s' ! j)"
    by blast
  from ex e have "int (t_count s') = \<lfloor>(1::real) / (1/2)\<rfloor> + 1" by blast
  then have tc: "t_count s' = 3" by simp
  with len have l3: "length (t s') = 3" by simp
  have "t s' ! 2 = Some 1" using each l3 by simp
  moreover have "the (t s' ! 1) < the (t s' ! 2)" using incr l3 by simp
  ultimately show ?thesis using h s' tc l3 first by simp
qed

text \<open>
  C3 as stated fails: with step size 1 and end time \<open>1 - 2^-53\<close> (both binary64 numbers) the
  quotient is exact, but adding 1 rounds \<open>2 - 2^-53\<close> up to 2, so the grid gets two entries
  where \<open>floor (tmax / dt) + 1\<close> is 1.
\<close>

theorem SetTime_grid_rounds_up:
  "(0::real) < 1 \<and> (0::real) \<le> 1 - 1 / 2 ^ 53 \<and>
   SetTime 2147483647 1 (1 - 1 / 2 ^ 53) (blank (\<lambda>tm px py. 1) (\<lambda>tm px py. 0)) =
     Some ((blank (\<lambda>tm px py. 1) (\<lambda>tm px py. 0))
             \<lparr>dt := 1, tmax := 1 - 1 / 2 ^ 53, t_count := 2, t := [Some 0, Some 1], t_set := True\<rparr>) \<and>
   length (t (the (SetTime 2147483647 1 (1 - 1 / 2 ^ 53) (blank (\<lambda>tm px py. 1) (\<lambda>tm px py. 0))))) = 2 \<and>
   \<lfloor>(1 - 1 / 2 ^ 53) / (1::real)\<rfloor> + 1 = 1"
proof -
  have "SetTime 2147483647 1 (1 - 1 / 2 ^ 53) (blank (\<lambda>tm px py. 1) (\<lambda>tm px py. 0)) =
     Some ((blank (\<lambda>tm px py. 1) (\<lambda>tm px py. 0))
             \<lparr>dt := 1, tmax := 1 - 1 / 2 ^ 53, t_count := 2, t := [Some 0, Some 1], t_set := True\<rparr>)"
    using SetTime_of_count[OF step_count_rounds_up, of "blank (\<lambda>tm px py. 1) (\<lambda>tm px py. 0)"]
    by (simp add: blank_def numeral_2_eq_2)
  moreover have "\<lfloor>(1 - 1 / 2 ^ 53) / (1::real)\<rfloor> + 1 = 1" by simp
  ultimately show ?thesis by simp
qed

lemma ready_shear: "ready shear"
  by (simp add: ready_def shear_def)

lemma MarchEE_shear: "MarchEE shear = Some shear_EE"
  by (simp add: MarchEE_def EE_time.simps EE_parts.simps EE_body_def vec_get_def vec_set_def
      euler_def cell2_def cell3_def shear_def shear_EE_def)

lemma MarchAB_shear: "MarchAB shear = Some shear_AB"
  by (simp add: MarchAB_def AB_time.simps AB_parts.simps AB_body_def vec_get_def vec_set_def
      euler_def adams_def cell2_def cell3_def shear_def shear_AB_def Let_def)

section \<open>Particle store\<close>

lemma length_conservativeResize: "length (conservativeResize n a) = n"
  by (simp add: conservativeResize_def)


lemma conservativeResize_single:
  "conservativeResize (Suc n) [c] = c # replicate n None"
  by (simp add: conservativeResize_def)

lemma resize_one_update: "(resize (Suc 0) a)[0 := c] = [c]"
proof (cases "length a = 1")
  case True
  then obtain z where "a = [z]" by (cases a) auto
  then show ?thesis by (simp add: resize_def)
next
  case False
  then show ?thesis by (simp add: resize_def)
qed

lemma length_vector_resize: "length (vector_resize n ps) = n"
  by (simp add: vector_resize_def)

lemma SetICs_loop_result:
  assumes "length ps = length x0" "length x0 = length y0" "n \<le> length ps"
  shows "SetICs_loop x0 y0 n ps =
           Some (take n ps @ map (\<lambda>k. \<lparr>x = [Some (x0 ! k)], y = [Some (y0 ! k)]\<rparr>) [n..<length ps])"
  using assms
proof (induction "length ps - n" arbitrary: n ps)
  case 0
  then show ?case by (subst SetICs_loop.simps) simp
next
  case (Suc m)
  let ?p = "\<lparr>x = [Some (x0 ! n)], y = [Some (y0 ! n)]\<rparr>"
  from Suc.hyps(2) have lt: "n < length ps" by simp
  have upd: "(ps ! n)\<lparr>x := (resize 1 (x (ps ! n)))[0 := Some (x0 ! n)],
                      y := (resize 1 (y (ps ! n)))[0 := Some (y0 ! n)]\<rparr> = ?p"
    by (simp add: resize_one_update)
  have step: "SetICs_loop x0 y0 n ps = SetICs_loop x0 y0 (Suc n) (ps[n := ?p])"
    using lt Suc.prems(1,2) upd
    by (subst SetICs_loop.simps) (simp add: vec_set_def length_resize)
  have m: "m = length (ps[n := ?p]) - Suc n" using Suc.hyps(2) by simp
  have "SetICs_loop x0 y0 (Suc n) (ps[n := ?p]) =
          Some (take (Suc n) (ps[n := ?p]) @
                map (\<lambda>k. \<lparr>x = [Some (x0 ! k)], y = [Some (y0 ! k)]\<rparr>) [Suc n..<length (ps[n := ?p])])"
    using Suc.hyps(1)[OF m] Suc.prems lt by simp
  moreover have "take (Suc n) (ps[n := ?p]) = take n ps @ [?p]"
    using lt by (simp add: take_Suc_conv_app_nth)
  moreover have "[n..<length ps] = n # [Suc n..<length ps]" using lt by (simp add: upt_conv_Cons)
  ultimately show ?case using step by simp
qed

lemma SetICs_Some:
  assumes "length x0 = length y0"
  shows "SetICs x0 y0 s =
     (Ok, let s1 = s\<lparr>parts := map (\<lambda>k. \<lparr>x = [Some (x0 ! k)], y = [Some (y0 ! k)]\<rparr>) [0..<length x0],
                      ic_set := True\<rparr>
          in if t_set s then ResizeParts s1 else s1)"
  using assms SetICs_loop_result[of "vector_resize (length x0) (parts s)" x0 y0 0]
  by (simp add: SetICs_def length_vector_resize Let_def)

lemma shear_configured:
  "SetTime 2147483647 1 1 (blank (\<lambda>tm px py. 1) (\<lambda>tm px py. tm)) =
     Some (\<lparr>dt = 1, tmax = 1, t_count = 2, t = [Some 0, Some 1], parts = [],
             t_set = True, ic_set = False, u = (\<lambda>tm px py. 1), v = (\<lambda>tm px py. tm)\<rparr>)"
  "SetICs [0, 5] [0, 7] \<lparr>dt = 1, tmax = 1, t_count = 2, t = [Some 0, Some 1], parts = [],
             t_set = True, ic_set = False, u = (\<lambda>tm px py. 1), v = (\<lambda>tm px py. tm)\<rparr> = (Ok, shear)"
proof -
  have "step_count 2147483647 1 1 = Some 2"
    using step_count_int[of 1 2147483647] by simp
  from SetTime_of_count[OF this, of "blank (\<lambda>tm px py. 1) (\<lambda>tm px py. tm)"]
  show "SetTime 2147483647 1 1 (blank (\<lambda>tm px py. 1) (\<lambda>tm px py. tm)) =
     Some (\<lparr>dt = 1, tmax = 1, t_count = 2, t = [Some 0, Some 1], parts = [],
             t_set = True, ic_set = False, u = (\<lambda>tm px py. 1), v = (\<lambda>tm px py. tm)\<rparr>)"
    by (simp add: blank_def numeral_2_eq_2)
  show "SetICs [0, 5] [0, 7] \<lparr>dt = 1, tmax = 1, t_count = 2, t = [Some 0, Some 1], parts = [],
             t_set = True, ic_set = False, u = (\<lambda>tm px py. 1), v = (\<lambda>tm px py. tm)\<rparr> = (Ok, shear)"
    by (simp add: SetICs_Some ResizeParts_def conservativeResize_def shear_def
        upt_rec_numeral eval_nat_numeral)
qed

text \<open>
  C4. When the two initial-condition sequences differ in length, \<open>SetICs\<close> raises
  \<open>InvalidArgument\<close> and the object it leaves is the object it was given: no particle is
  created and nothing is changed. When the lengths agree the call succeeds.
\<close>

theorem SetICs_length_check:
  "(length x0 \<noteq> length y0 \<longrightarrow> SetICs x0 y0 s = (Raised InvalidArgument, s)) \<and>
   (length x0 = length y0 \<longrightarrow> fst (SetICs x0 y0 s) = Ok)"
proof (intro conjI impI)
  assume "length x0 \<noteq> length y0"
  then show "SetICs x0 y0 s = (Raised InvalidArgument, s)" by (simp add: SetICs_def)
next
  assume "length x0 = length y0"
  then show "fst (SetICs x0 y0 s) = Ok" by (simp add: SetICs_Some)
qed

theorem SetICs_length_check_witness:
  "length [1::real] \<noteq> length [2, 3::real] \<and>
   SetICs [1] [2, 3] (blank (\<lambda>_ _ _. 1) (\<lambda>_ _ _. 0)) =
     (Raised InvalidArgument, blank (\<lambda>_ _ _. 1) (\<lambda>_ _ _. 0)) \<and>
   length [1::real, 4] = length [2, 3::real] \<and>
   fst (SetICs [1, 4] [2, 3] (blank (\<lambda>_ _ _. 1) (\<lambda>_ _ _. 0))) = Ok"
  using SetICs_length_check[of "[1]" "[2, 3]" "blank (\<lambda>_ _ _. 1) (\<lambda>_ _ _. 0)"]
        SetICs_length_check[of "[1, 4]" "[2, 3]" "blank (\<lambda>_ _ _. 1) (\<lambda>_ _ _. 0)"]
  by simp

text \<open>
  C9. A successful \<open>SetICs\<close> with sequences of length \<open>count\<close> leaves exactly \<open>count\<close>
  particles. Particle \<open>n\<close> holds \<open>x0 ! n\<close> and \<open>y0 ! n\<close> at index 0, and every further slot
  of its buffers (there are \<open>t_count\<close> of them once the time grid is set) is fresh storage:
  samples computed before the call are gone. The new store does not depend on the old one.
\<close>

theorem SetICs_resets:
  assumes "length x0 = length y0"
  shows "fst (SetICs x0 y0 s) = Ok \<and>
         length (parts (snd (SetICs x0 y0 s))) = length x0 \<and>
         (\<forall>n < length x0.
            x (parts (snd (SetICs x0 y0 s)) ! n) =
              Some (x0 ! n) # replicate (if t_set s then t_count s else 0) None \<and>
            y (parts (snd (SetICs x0 y0 s)) ! n) =
              Some (y0 ! n) # replicate (if t_set s then t_count s else 0) None) \<and>
         parts (snd (SetICs x0 y0 (s\<lparr>parts := ps\<rparr>))) = parts (snd (SetICs x0 y0 s))"
  using assms
  by (simp add: SetICs_Some Let_def ResizeParts_def conservativeResize_single)

theorem SetICs_resets_witness:
  "length [3::real] = length [4::real] \<and>
   fst (SetICs [3] [4] shear_EE) = Ok \<and>
   length (parts (snd (SetICs [3] [4] shear_EE))) = 1 \<and>
   x (parts (snd (SetICs [3] [4] shear_EE)) ! 0) = [Some 3, None, None] \<and>
   y (parts (snd (SetICs [3] [4] shear_EE)) ! 0) = [Some 4, None, None]"
  using SetICs_resets[of "[3]" "[4]" shear_EE]
  by (simp add: shear_EE_def shear_def eval_nat_numeral)



text \<open>
  The two configuration calls, in either order, leave a ready state: this is what the
  constructor does before any integrator can run.
\<close>

lemma configured_ready:
  assumes "0 < d" "0 \<le> m" "\<lfloor>m / d\<rfloor> + 2 \<le> int cap" "cap \<le> 2 ^ 53" "length x0 = length y0"
  shows "\<exists>s1. SetTime cap d m s = Some s1 \<and> fst (SetICs x0 y0 s1) = Ok \<and>
              ready (snd (SetICs x0 y0 s1))"
    and "fst (SetICs x0 y0 s) = Ok \<and>
         (\<exists>s2. SetTime cap d m (snd (SetICs x0 y0 s)) = Some s2 \<and> ready s2)"
proof -
  from step_count_bracket[OF assms(1-4)] obtain n where sc: "step_count cap d m = Some n"
    by blast
  show "\<exists>s1. SetTime cap d m s = Some s1 \<and> fst (SetICs x0 y0 s1) = Ok \<and>
              ready (snd (SetICs x0 y0 s1))"
    using assms(5)
    by (auto simp: SetTime_of_count[OF sc] SetICs_Some Let_def ready_def ResizeParts_def
        list_all_iff length_conservativeResize)
  show "fst (SetICs x0 y0 s) = Ok \<and>
         (\<exists>s2. SetTime cap d m (snd (SetICs x0 y0 s)) = Some s2 \<and> ready s2)"
    using assms(5)
    by (auto simp: SetTime_of_count[OF sc] SetICs_Some Let_def ready_def ResizeParts_def
        list_all_iff length_conservativeResize)
qed

section \<open>Explicit Euler\<close>

text \<open>What one pass of the loop body does to a particle when every access is in range.\<close>

definition EE_particle :: "Dsys_Anal \<Rightarrow> nat \<Rightarrow> Particle \<Rightarrow> Particle" where
  "EE_particle s i p =
     p\<lparr>x := (x p)[Suc i := euler (x p ! i) (dt s) (cell3 (u s) (t s ! i) (x p ! i) (y p ! i))],
       y := (y p)[Suc i := euler (y p ! i) (dt s) (cell3 (v s) (t s ! i) (x p ! i) (y p ! i))]\<rparr>"

text \<open>The two update equations of time index \<open>j\<close>, read off a particle's buffers.\<close>

definition EE_holds :: "Dsys_Anal \<Rightarrow> Particle \<Rightarrow> nat \<Rightarrow> bool" where
  "EE_holds s p j \<longleftrightarrow>
     x p ! Suc j = euler (x p ! j) (dt s) (cell3 (u s) (t s ! j) (x p ! j) (y p ! j)) \<and>
     y p ! Suc j = euler (y p ! j) (dt s) (cell3 (v s) (t s ! j) (x p ! j) (y p ! j))"

lemma EE_particle_parts [simp]: "EE_particle (s\<lparr>parts := ps\<rparr>) i = EE_particle s i"
  by (rule ext) (simp add: EE_particle_def)

lemma EE_holds_parts [simp]: "EE_holds (s\<lparr>parts := ps\<rparr>) p j = EE_holds s p j"
  by (simp add: EE_holds_def)

lemma EE_particle_length [simp]:
  "length (x (EE_particle s i p)) = length (x p)"
  "length (y (EE_particle s i p)) = length (y p)"
  by (simp_all add: EE_particle_def)

lemma EE_particle_below:
  "k \<le> i \<Longrightarrow> x (EE_particle s i p) ! k = x p ! k"
  "k \<le> i \<Longrightarrow> y (EE_particle s i p) ! k = y p ! k"
  by (simp_all add: EE_particle_def)

lemma EE_particle_holds:
  "Suc i < length (x p) \<Longrightarrow> Suc i < length (y p) \<Longrightarrow> EE_holds s (EE_particle s i p) i"
  by (simp add: EE_particle_def EE_holds_def)

lemma EE_body_eq:
  assumes "n < length (parts s)" "i < length (t s)"
    "Suc i < length (x (parts s ! n))" "Suc i < length (y (parts s ! n))"
  shows "EE_body i n s = Some (s\<lparr>parts := (parts s)[n := EE_particle s i (parts s ! n)]\<rparr>)"
  using assms by (simp add: EE_body_def vec_get_def vec_set_def EE_particle_def Let_def)

lemma map_from_step:
  assumes "n < length ps"
  shows "take (Suc n) (ps[n := f (ps ! n)]) @ map f (drop (Suc n) (ps[n := f (ps ! n)])) =
         take n ps @ map f (drop n ps)"
proof -
  have "take (Suc n) (ps[n := f (ps ! n)]) = take n ps @ [f (ps ! n)]"
    using assms by (simp add: take_Suc_conv_app_nth)
  moreover have "drop n ps = ps ! n # drop (Suc n) ps"
    using assms by (simp add: Cons_nth_drop_Suc)
  ultimately show ?thesis by simp
qed

lemma EE_parts_eq:
  assumes "i < length (t s)"
    "\<forall>p \<in> set (parts s). Suc i < length (x p) \<and> Suc i < length (y p)"
    "n \<le> length (parts s)"
  shows "EE_parts i n s =
           Some (s\<lparr>parts := take n (parts s) @ map (EE_particle s i) (drop n (parts s))\<rparr>)"
  using assms
proof (induction "length (parts s) - n" arbitrary: n s)
  case 0
  then show ?case by (subst EE_parts.simps) simp
next
  case (Suc m)
  let ?ps = "parts s"
  let ?s1 = "s\<lparr>parts := ?ps[n := EE_particle s i (?ps ! n)]\<rparr>"
  from Suc.hyps(2) have lt: "n < length ?ps" by simp
  then have mem: "?ps ! n \<in> set ?ps" by simp
  with Suc.prems(2) have room: "Suc i < length (x (?ps ! n))" "Suc i < length (y (?ps ! n))"
    by blast+
  have body: "EE_body i n s = Some ?s1"
    by (rule EE_body_eq[OF lt Suc.prems(1) room])
  have step: "EE_parts i n s = EE_parts i (Suc n) ?s1"
    using lt body by (subst EE_parts.simps) simp
  have m: "m = length (parts ?s1) - Suc n" using Suc.hyps(2) by simp
  have t1: "i < length (t ?s1)" using Suc.prems(1) by simp
  have all1: "\<forall>p \<in> set (parts ?s1). Suc i < length (x p) \<and> Suc i < length (y p)"
  proof
    fix p assume "p \<in> set (parts ?s1)"
    then have "p \<in> insert (EE_particle s i (?ps ! n)) (set ?ps)"
      using set_update_subset_insert[of ?ps n] by auto
    then show "Suc i < length (x p) \<and> Suc i < length (y p)"
      using Suc.prems(2) room by auto
  qed
  have n1: "Suc n \<le> length (parts ?s1)" using lt by simp
  from Suc.hyps(1)[OF m t1 all1 n1] step map_from_step[OF lt, of "EE_particle s i"]
  show ?case by simp
qed

lemma EE_parts_all:
  assumes "i < length (t s)"
    "\<forall>p \<in> set (parts s). Suc i < length (x p) \<and> Suc i < length (y p)"
  shows "EE_parts i 0 s = Some (s\<lparr>parts := map (EE_particle s i) (parts s)\<rparr>)"
  using EE_parts_eq[OF assms, of 0] by simp

lemma EE_holds_cong:
  assumes "x p ! j = x q ! j" "x p ! Suc j = x q ! Suc j"
    "y p ! j = y q ! j" "y p ! Suc j = y q ! Suc j"
  shows "EE_holds s p j = EE_holds s q j"
  using assms by (simp add: EE_holds_def)

lemma EE_time_result:
  assumes "t_count s \<le> length (t s)"
    "\<forall>p \<in> set (parts s). t_count s < length (x p) \<and> t_count s < length (y p)"
    "i \<le> t_count s"
  shows "\<exists>ps. EE_time i s = Some (s\<lparr>parts := ps\<rparr>) \<and> length ps = length (parts s) \<and>
           (\<forall>n < length ps.
              length (x (ps ! n)) = length (x (parts s ! n)) \<and>
              length (y (ps ! n)) = length (y (parts s ! n)) \<and>
              (\<forall>k \<le> i. x (ps ! n) ! k = x (parts s ! n) ! k \<and> y (ps ! n) ! k = y (parts s ! n) ! k) \<and>
              (\<forall>j. i \<le> j \<and> j < t_count s \<longrightarrow> EE_holds s (ps ! n) j))"
  using assms
proof (induction "t_count s - i" arbitrary: i s)
  case 0
  then have "EE_time i s = Some (s\<lparr>parts := parts s\<rparr>)"
    by (subst EE_time.simps) simp
  then show ?case using 0 by (intro exI[of _ "parts s"]) auto
next
  case (Suc m)
  let ?s1 = "s\<lparr>parts := map (EE_particle s i) (parts s)\<rparr>"
  from Suc.hyps(2) have lt: "i < t_count s" by simp
  have it: "i < length (t s)" using lt Suc.prems(1) by simp
  have room: "\<forall>p \<in> set (parts s). Suc i < length (x p) \<and> Suc i < length (y p)"
    using lt Suc.prems(2) by auto
  have sweep: "EE_parts i 0 s = Some ?s1" by (rule EE_parts_all[OF it room])
  have step: "EE_time i s = EE_time (Suc i) ?s1"
    using lt sweep by (subst EE_time.simps) simp
  have m: "m = t_count ?s1 - Suc i" using Suc.hyps(2) by simp
  have a1: "t_count ?s1 \<le> length (t ?s1)" using Suc.prems(1) by simp
  have a2: "\<forall>p \<in> set (parts ?s1). t_count ?s1 < length (x p) \<and> t_count ?s1 < length (y p)"
    using Suc.prems(2) by auto
  have a3: "Suc i \<le> t_count ?s1" using lt by simp
  from Suc.hyps(1)[OF m a1 a2 a3] obtain ps where
    run: "EE_time (Suc i) ?s1 = Some (?s1\<lparr>parts := ps\<rparr>)" and
    len: "length ps = length (parts s)" and
    each: "\<forall>n < length ps.
              length (x (ps ! n)) = length (x (parts ?s1 ! n)) \<and>
              length (y (ps ! n)) = length (y (parts ?s1 ! n)) \<and>
              (\<forall>k \<le> Suc i. x (ps ! n) ! k = x (parts ?s1 ! n) ! k \<and>
                            y (ps ! n) ! k = y (parts ?s1 ! n) ! k) \<and>
              (\<forall>j. Suc i \<le> j \<and> j < t_count ?s1 \<longrightarrow> EE_holds ?s1 (ps ! n) j)"
    by auto
  have fin: "EE_time i s = Some (s\<lparr>parts := ps\<rparr>)" using step run by simp
  have "\<forall>n < length ps.
              length (x (ps ! n)) = length (x (parts s ! n)) \<and>
              length (y (ps ! n)) = length (y (parts s ! n)) \<and>
              (\<forall>k \<le> i. x (ps ! n) ! k = x (parts s ! n) ! k \<and> y (ps ! n) ! k = y (parts s ! n) ! k) \<and>
              (\<forall>j. i \<le> j \<and> j < t_count s \<longrightarrow> EE_holds s (ps ! n) j)"
  proof (intro allI impI)
    fix n assume n: "n < length ps"
    let ?p = "parts s ! n"
    let ?p1 = "EE_particle s i ?p"
    from n len have nl: "n < length (parts s)" by simp
    then have p1: "parts ?s1 ! n = ?p1" by simp
    from nl room have rp: "Suc i < length (x ?p)" "Suc i < length (y ?p)" by auto
    from each n p1 have
      lx: "length (x (ps ! n)) = length (x ?p1)" and
      ly: "length (y (ps ! n)) = length (y ?p1)" and
      low: "\<forall>k \<le> Suc i. x (ps ! n) ! k = x ?p1 ! k \<and> y (ps ! n) ! k = y ?p1 ! k" and
      up: "\<forall>j. Suc i \<le> j \<and> j < t_count s \<longrightarrow> EE_holds s (ps ! n) j"
      by auto
    have keep: "\<forall>k \<le> i. x (ps ! n) ! k = x ?p ! k \<and> y (ps ! n) ! k = y ?p ! k"
      using low by (simp add: EE_particle_below)
    have "EE_holds s (ps ! n) i = EE_holds s ?p1 i"
      using low by (intro EE_holds_cong) simp_all
    then have here: "EE_holds s (ps ! n) i" using EE_particle_holds[OF rp] by simp
    have "\<forall>j. i \<le> j \<and> j < t_count s \<longrightarrow> EE_holds s (ps ! n) j"
    proof (intro allI impI)
      fix j assume j: "i \<le> j \<and> j < t_count s"
      show "EE_holds s (ps ! n) j"
      proof (cases "j = i")
        case True
        with here show ?thesis by simp
      next
        case False
        with j up show ?thesis by simp
      qed
    qed
    with lx ly keep
    show "length (x (ps ! n)) = length (x ?p) \<and>
          length (y (ps ! n)) = length (y ?p) \<and>
          (\<forall>k \<le> i. x (ps ! n) ! k = x ?p ! k \<and> y (ps ! n) ! k = y ?p ! k) \<and>
          (\<forall>j. i \<le> j \<and> j < t_count s \<longrightarrow> EE_holds s (ps ! n) j)"
      by simp
  qed
  with fin len show ?case by blast
qed

lemma ready_room:
  assumes "ready s"
  shows "t_count s \<le> length (t s)"
    "\<forall>p \<in> set (parts s). t_count s < length (x p) \<and> t_count s < length (y p)"
  using assms by (auto simp: ready_def list_all_iff)

text \<open>
  A particle is determinate when the times and its initial condition are stored values.
  The update equations are then equations between real numbers: \<open>Euler_step\<close> says that
  the buffers hold real numbers at \<open>i\<close> and \<open>i + 1\<close> related by the Euler formulas.
\<close>

definition determinate :: "Dsys_Anal \<Rightarrow> Particle \<Rightarrow> bool" where
  "determinate s p \<longleftrightarrow>
     list_all (\<lambda>i. t s ! i \<noteq> None) [0..<t_count s] \<and> x p ! 0 \<noteq> None \<and> y p ! 0 \<noteq> None"

definition Euler_step :: "Dsys_Anal \<Rightarrow> Particle \<Rightarrow> nat \<Rightarrow> bool" where
  "Euler_step s p i =
     (case (t s ! i, x p ! i, y p ! i) of
        (Some ti, Some xi, Some yi) \<Rightarrow>
          x p ! (i + 1) = Some (xi + dt s * u s ti xi yi) \<and>
          y p ! (i + 1) = Some (yi + dt s * v s ti xi yi)
      | _ \<Rightarrow> False)"

lemma euler_Some:
  "euler (Some a) d (cell3 f (Some b) (Some a') (Some c)) = Some (a + d * f b a' c)"
  by (simp add: euler_def cell2_def cell3_def)


lemma EE_determinate:
  assumes "\<forall>j < K. EE_holds s p j" "\<forall>j < K. t s ! j \<noteq> None" "x p ! 0 \<noteq> None" "y p ! 0 \<noteq> None"
  shows "k \<le> K \<Longrightarrow> x p ! k \<noteq> None \<and> y p ! k \<noteq> None"
proof (induction k)
  case 0
  with assms(3,4) show ?case by simp
next
  case (Suc k)
  then have k: "k < K" and prev: "x p ! k \<noteq> None" "y p ! k \<noteq> None" by simp_all
  from k assms(1,2) have h: "EE_holds s p k" and tk: "t s ! k \<noteq> None" by simp_all
  from prev tk obtain a b c where "x p ! k = Some a" "y p ! k = Some b" "t s ! k = Some c" by auto
  with h show ?case by (simp add: EE_holds_def euler_Some)
qed

lemma EE_Euler_step:
  assumes "\<forall>j < K. EE_holds s p j" "\<forall>j < K. t s ! j \<noteq> None" "x p ! 0 \<noteq> None" "y p ! 0 \<noteq> None"
    "i < K"
  shows "Euler_step s p i"
proof -
  from EE_determinate[OF assms(1-4), of i] assms(5)
  have "x p ! i \<noteq> None" "y p ! i \<noteq> None" by simp_all
  moreover from assms(2,5) have "t s ! i \<noteq> None" by simp
  ultimately obtain a b c where e: "x p ! i = Some a" "y p ! i = Some b" "t s ! i = Some c" by auto
  from assms(1,5) have "EE_holds s p i" by simp
  with e show ?thesis by (simp add: Euler_step_def EE_holds_def euler_Some)
qed

lemma determinate_times:
  "determinate s p \<Longrightarrow> \<forall>j < t_count s. t s ! j \<noteq> None"
  by (simp add: determinate_def list_all_iff)

text \<open>
  C1. On a ready state \<open>MarchEE\<close> returns, leaving the time grid and every initial
  condition as they were, and for each time index \<open>i < t_count\<close> and each particle \<open>n\<close>
  the final buffers satisfy \<open>x[n][i+1] = x[n][i] + dt * u(t[i], x[n][i], y[n][i])\<close> and
  \<open>y[n][i+1] = y[n][i] + dt * v(t[i], x[n][i], y[n][i])\<close>: as equations between cells in
  general, and between real numbers when the particle is determinate. The iteration is time-outer,
  particle-inner: iteration \<open>i\<close> of the time loop is one sweep that updates every
  particle, followed by the iterations from \<open>i + 1\<close> on the state the sweep leaves.
\<close>

theorem MarchEE_recurrence:
  assumes "ready s"
  shows "\<exists>s'. MarchEE s = Some s' \<and> t s' = t s \<and> dt s' = dt s \<and>
           length (parts s') = length (parts s) \<and>
           (\<forall>n < length (parts s).
              x (parts s' ! n) ! 0 = x (parts s ! n) ! 0 \<and>
              y (parts s' ! n) ! 0 = y (parts s ! n) ! 0 \<and>
              (\<forall>i < t_count s.
                 x (parts s' ! n) ! (i + 1) =
                   euler (x (parts s' ! n) ! i) (dt s)
                     (cell3 (u s) (t s ! i) (x (parts s' ! n) ! i) (y (parts s' ! n) ! i)) \<and>
                 y (parts s' ! n) ! (i + 1) =
                   euler (y (parts s' ! n) ! i) (dt s)
                     (cell3 (v s) (t s ! i) (x (parts s' ! n) ! i) (y (parts s' ! n) ! i))) \<and>
              (determinate s (parts s ! n) \<longrightarrow>
                 (\<forall>i < t_count s. Euler_step s (parts s' ! n) i))) \<and>
           (\<forall>i < t_count s. \<forall>c. ready c \<and> t_count c = t_count s \<longrightarrow>
              EE_parts i 0 c = Some (c\<lparr>parts := map (EE_particle c i) (parts c)\<rparr>) \<and>
              EE_time i c = EE_time (i + 1) (c\<lparr>parts := map (EE_particle c i) (parts c)\<rparr>))"
proof -
  from EE_time_result[OF ready_room[OF assms], of 0] obtain ps where
    run: "EE_time 0 s = Some (s\<lparr>parts := ps\<rparr>)" and
    len: "length ps = length (parts s)" and
    each: "\<forall>n < length ps.
              (\<forall>k \<le> 0. x (ps ! n) ! k = x (parts s ! n) ! k \<and> y (ps ! n) ! k = y (parts s ! n) ! k) \<and>
              (\<forall>j. 0 \<le> j \<and> j < t_count s \<longrightarrow> EE_holds s (ps ! n) j)"
    by auto
  have order: "\<forall>i < t_count s. \<forall>c. ready c \<and> t_count c = t_count s \<longrightarrow>
              EE_parts i 0 c = Some (c\<lparr>parts := map (EE_particle c i) (parts c)\<rparr>) \<and>
              EE_time i c = EE_time (i + 1) (c\<lparr>parts := map (EE_particle c i) (parts c)\<rparr>)"
  proof (intro allI impI)
    fix i c assume i: "i < t_count s" and c: "ready c \<and> t_count c = t_count s"
    have "i < length (t c)" using i c ready_room(1)[of c] by simp
    moreover have "\<forall>p \<in> set (parts c). Suc i < length (x p) \<and> Suc i < length (y p)"
      using i c ready_room(2)[of c] by auto
    ultimately have sw: "EE_parts i 0 c = Some (c\<lparr>parts := map (EE_particle c i) (parts c)\<rparr>)"
      by (rule EE_parts_all)
    moreover have "EE_time i c = EE_time (i + 1) (c\<lparr>parts := map (EE_particle c i) (parts c)\<rparr>)"
      using i c sw by (subst EE_time.simps) simp
    ultimately show "EE_parts i 0 c = Some (c\<lparr>parts := map (EE_particle c i) (parts c)\<rparr>) \<and>
              EE_time i c = EE_time (i + 1) (c\<lparr>parts := map (EE_particle c i) (parts c)\<rparr>)"
      by simp
  qed
  have "\<forall>n < length (parts s).
              x (ps ! n) ! 0 = x (parts s ! n) ! 0 \<and>
              y (ps ! n) ! 0 = y (parts s ! n) ! 0 \<and>
              (\<forall>i < t_count s.
                 x (ps ! n) ! (i + 1) =
                   euler (x (ps ! n) ! i) (dt s) (cell3 (u s) (t s ! i) (x (ps ! n) ! i) (y (ps ! n) ! i)) \<and>
                 y (ps ! n) ! (i + 1) =
                   euler (y (ps ! n) ! i) (dt s) (cell3 (v s) (t s ! i) (x (ps ! n) ! i) (y (ps ! n) ! i))) \<and>
              (determinate s (parts s ! n) \<longrightarrow> (\<forall>i < t_count s. Euler_step s (ps ! n) i))"
  proof (intro allI impI)
    fix n assume n: "n < length (parts s)"
    from each n len have
      p0: "x (ps ! n) ! 0 = x (parts s ! n) ! 0" "y (ps ! n) ! 0 = y (parts s ! n) ! 0" and
      ph: "\<forall>j < t_count s. EE_holds s (ps ! n) j"
      by auto
    from ph have cells: "\<forall>i < t_count s.
                 x (ps ! n) ! (i + 1) =
                   euler (x (ps ! n) ! i) (dt s) (cell3 (u s) (t s ! i) (x (ps ! n) ! i) (y (ps ! n) ! i)) \<and>
                 y (ps ! n) ! (i + 1) =
                   euler (y (ps ! n) ! i) (dt s) (cell3 (v s) (t s ! i) (x (ps ! n) ! i) (y (ps ! n) ! i))"
      by (simp add: EE_holds_def)
    have det: "determinate s (parts s ! n) \<longrightarrow> (\<forall>i < t_count s. Euler_step s (ps ! n) i)"
    proof (intro impI allI)
      fix i assume d: "determinate s (parts s ! n)" and i: "i < t_count s"
      from d p0 have "x (ps ! n) ! 0 \<noteq> None" "y (ps ! n) ! 0 \<noteq> None"
        by (simp_all add: determinate_def)
      from EE_Euler_step[OF ph determinate_times[OF d] this i]
      show "Euler_step s (ps ! n) i" .
    qed
    from p0 cells det
    show "x (ps ! n) ! 0 = x (parts s ! n) ! 0 \<and>
              y (ps ! n) ! 0 = y (parts s ! n) ! 0 \<and>
              (\<forall>i < t_count s.
                 x (ps ! n) ! (i + 1) =
                   euler (x (ps ! n) ! i) (dt s) (cell3 (u s) (t s ! i) (x (ps ! n) ! i) (y (ps ! n) ! i)) \<and>
                 y (ps ! n) ! (i + 1) =
                   euler (y (ps ! n) ! i) (dt s) (cell3 (v s) (t s ! i) (x (ps ! n) ! i) (y (ps ! n) ! i))) \<and>
              (determinate s (parts s ! n) \<longrightarrow> (\<forall>i < t_count s. Euler_step s (ps ! n) i))"
      by blast
  qed
  moreover have psa: "parts (s\<lparr>parts := ps\<rparr>) = ps" by simp
  ultimately have main: "\<forall>n < length (parts s).
              x (parts (s\<lparr>parts := ps\<rparr>) ! n) ! 0 = x (parts s ! n) ! 0 \<and>
              y (parts (s\<lparr>parts := ps\<rparr>) ! n) ! 0 = y (parts s ! n) ! 0 \<and>
              (\<forall>i < t_count s.
                 x (parts (s\<lparr>parts := ps\<rparr>) ! n) ! (i + 1) =
                   euler (x (parts (s\<lparr>parts := ps\<rparr>) ! n) ! i) (dt s)
                     (cell3 (u s) (t s ! i) (x (parts (s\<lparr>parts := ps\<rparr>) ! n) ! i)
                        (y (parts (s\<lparr>parts := ps\<rparr>) ! n) ! i)) \<and>
                 y (parts (s\<lparr>parts := ps\<rparr>) ! n) ! (i + 1) =
                   euler (y (parts (s\<lparr>parts := ps\<rparr>) ! n) ! i) (dt s)
                     (cell3 (v s) (t s ! i) (x (parts (s\<lparr>parts := ps\<rparr>) ! n) ! i)
                        (y (parts (s\<lparr>parts := ps\<rparr>) ! n) ! i))) \<and>
              (determinate s (parts s ! n) \<longrightarrow>
                 (\<forall>i < t_count s. Euler_step s (parts (s\<lparr>parts := ps\<rparr>) ! n) i))"
    by (simp only:)
  show ?thesis
  proof (intro exI conjI)
    show "MarchEE s = Some (s\<lparr>parts := ps\<rparr>)" using run by (simp add: MarchEE_def)
    show "t (s\<lparr>parts := ps\<rparr>) = t s" by simp
    show "dt (s\<lparr>parts := ps\<rparr>) = dt s" by simp
    show "length (parts (s\<lparr>parts := ps\<rparr>)) = length (parts s)" using len by simp
    show "\<forall>i < t_count s. \<forall>c. ready c \<and> t_count c = t_count s \<longrightarrow>
              EE_parts i 0 c = Some (c\<lparr>parts := map (EE_particle c i) (parts c)\<rparr>) \<and>
              EE_time i c = EE_time (i + 1) (c\<lparr>parts := map (EE_particle c i) (parts c)\<rparr>)"
      by (rule order)
  qed (rule main)
qed

theorem MarchEE_recurrence_witness:
  "ready shear \<and>
   (\<exists>s'. MarchEE shear = Some s' \<and>
      x (parts s' ! 1) ! 0 = Some 5 \<and> x (parts s' ! 1) ! 1 = Some 6 \<and> x (parts s' ! 1) ! 2 = Some 7 \<and>
      y (parts s' ! 1) ! 0 = Some 7 \<and> y (parts s' ! 1) ! 1 = Some 7 \<and> y (parts s' ! 1) ! 2 = Some 8 \<and>
      determinate shear (parts shear ! 1) \<and> Euler_step shear (parts s' ! 1) 1)"
proof -
  from MarchEE_recurrence[OF ready_shear] obtain s' where
    run: "MarchEE shear = Some s'" and tt: "t s' = t shear" and
    each: "\<forall>n < length (parts shear).
              x (parts s' ! n) ! 0 = x (parts shear ! n) ! 0 \<and>
              y (parts s' ! n) ! 0 = y (parts shear ! n) ! 0 \<and>
              (\<forall>i < t_count shear.
                 x (parts s' ! n) ! (i + 1) =
                   euler (x (parts s' ! n) ! i) (dt shear)
                     (cell3 (u shear) (t shear ! i) (x (parts s' ! n) ! i) (y (parts s' ! n) ! i)) \<and>
                 y (parts s' ! n) ! (i + 1) =
                   euler (y (parts s' ! n) ! i) (dt shear)
                     (cell3 (v shear) (t shear ! i) (x (parts s' ! n) ! i) (y (parts s' ! n) ! i))) \<and>
              (determinate shear (parts shear ! n) \<longrightarrow>
                 (\<forall>i < t_count shear. Euler_step shear (parts s' ! n) i))"
    by blast
  have "1 < length (parts shear)" by (simp add: shear_def)
  with each have
    x0: "x (parts s' ! 1) ! 0 = x (parts shear ! 1) ! 0" and
    y0: "y (parts s' ! 1) ! 0 = y (parts shear ! 1) ! 0" and
    rec: "\<forall>i < t_count shear.
                 x (parts s' ! 1) ! (i + 1) =
                   euler (x (parts s' ! 1) ! i) (dt shear)
                     (cell3 (u shear) (t shear ! i) (x (parts s' ! 1) ! i) (y (parts s' ! 1) ! i)) \<and>
                 y (parts s' ! 1) ! (i + 1) =
                   euler (y (parts s' ! 1) ! i) (dt shear)
                     (cell3 (v shear) (t shear ! i) (x (parts s' ! 1) ! i) (y (parts s' ! 1) ! i))" and
    det: "determinate shear (parts shear ! 1) \<longrightarrow>
            (\<forall>i < t_count shear. Euler_step shear (parts s' ! 1) i)"
    by blast+
  have a0: "x (parts s' ! 1) ! 0 = Some 5" "y (parts s' ! 1) ! 0 = Some 7"
    using x0 y0 by (simp_all add: shear_def)
  have "(0::nat) < t_count shear" by (simp add: shear_def)
  with rec a0 have a1: "x (parts s' ! 1) ! 1 = Some 6" "y (parts s' ! 1) ! 1 = Some 7"
    by (auto simp: shear_def euler_def cell2_def cell3_def)
  have "(1::nat) < t_count shear" by (simp add: shear_def)
  with rec have "x (parts s' ! 1) ! (1 + 1) =
                   euler (x (parts s' ! 1) ! 1) (dt shear)
                     (cell3 (u shear) (t shear ! 1) (x (parts s' ! 1) ! 1) (y (parts s' ! 1) ! 1)) \<and>
                 y (parts s' ! 1) ! (1 + 1) =
                   euler (y (parts s' ! 1) ! 1) (dt shear)
                     (cell3 (v shear) (t shear ! 1) (x (parts s' ! 1) ! 1) (y (parts s' ! 1) ! 1))"
    by blast
  with a1 have a2: "x (parts s' ! 1) ! 2 = Some 7" "y (parts s' ! 1) ! 2 = Some 8"
    by (simp_all add: shear_def euler_def cell2_def cell3_def numeral_2_eq_2)
  have d: "determinate shear (parts shear ! 1)"
    by (simp add: determinate_def shear_def numeral_2_eq_2)
  with det have "Euler_step shear (parts s' ! 1) 1" by (simp add: shear_def)
  with d show ?thesis using ready_shear run a0 a1 a2 by simp
qed

section \<open>Adams-Bashforth\<close>

text \<open>The velocity components evaluated at time index \<open>j\<close> for a particle.\<close>

definition u_at :: "Dsys_Anal \<Rightarrow> nat \<Rightarrow> Particle \<Rightarrow> cell" where
  "u_at s j p = cell3 (u s) (t s ! j) (x p ! j) (y p ! j)"

definition v_at :: "Dsys_Anal \<Rightarrow> nat \<Rightarrow> Particle \<Rightarrow> cell" where
  "v_at s j p = cell3 (v s) (t s ! j) (x p ! j) (y p ! j)"

text \<open>
  What one pass of the loop body of \<open>MarchAB\<close> does to a particle when every access is in
  range; \<open>um\<close> and \<open>vm\<close> are the particle's slots of \<open>u_nm1\<close> and \<open>v_nm1\<close>.
\<close>

definition AB_particle :: "Dsys_Anal \<Rightarrow> nat \<Rightarrow> cell \<Rightarrow> cell \<Rightarrow> Particle \<Rightarrow> Particle" where
  "AB_particle s i um vm p =
     p\<lparr>x := (x p)[Suc i := (if i = 0 then euler (x p ! i) (dt s) (u_at s i p)
                             else adams (x p ! i) (dt s) (u_at s i p) um)],
       y := (y p)[Suc i := (if i = 0 then euler (y p ! i) (dt s) (v_at s i p)
                             else adams (y p ! i) (dt s) (v_at s i p) vm)]\<rparr>"

text \<open>The update equations of time index \<open>j\<close>, read off a particle's buffers.\<close>

definition AB_holds :: "Dsys_Anal \<Rightarrow> Particle \<Rightarrow> nat \<Rightarrow> bool" where
  "AB_holds s p j \<longleftrightarrow>
     (if j = 0 then
        x p ! Suc j = euler (x p ! j) (dt s) (u_at s j p) \<and>
        y p ! Suc j = euler (y p ! j) (dt s) (v_at s j p)
      else
        x p ! Suc j = adams (x p ! j) (dt s) (u_at s j p) (u_at s (j - 1) p) \<and>
        y p ! Suc j = adams (y p ! j) (dt s) (v_at s j p) (v_at s (j - 1) p))"

lemma at_parts [simp]:
  "u_at (s\<lparr>parts := ps\<rparr>) j = u_at s j" "v_at (s\<lparr>parts := ps\<rparr>) j = v_at s j"
  by (rule ext, simp add: u_at_def v_at_def)+

lemma AB_particle_parts [simp]: "AB_particle (s\<lparr>parts := ps\<rparr>) i = AB_particle s i"
  by (intro ext) (simp add: AB_particle_def)

lemma AB_holds_parts [simp]: "AB_holds (s\<lparr>parts := ps\<rparr>) p j = AB_holds s p j"
  by (simp add: AB_holds_def)

lemma AB_particle_length [simp]:
  "length (x (AB_particle s i um vm p)) = length (x p)"
  "length (y (AB_particle s i um vm p)) = length (y p)"
  by (simp_all add: AB_particle_def)

lemma AB_particle_below:
  "k \<le> i \<Longrightarrow> x (AB_particle s i um vm p) ! k = x p ! k"
  "k \<le> i \<Longrightarrow> y (AB_particle s i um vm p) ! k = y p ! k"
  by (simp_all add: AB_particle_def)

lemma at_cong:
  assumes "x p ! j = x q ! j" "y p ! j = y q ! j"
  shows "u_at s j p = u_at s j q" "v_at s j p = v_at s j q"
  using assms by (simp_all add: u_at_def v_at_def)

lemma AB_body_eq:
  assumes "n < length (parts s)" "i < length (t s)"
    "Suc i < length (x (parts s ! n))" "Suc i < length (y (parts s ! n))"
    "n < length a" "n < length b"
  shows "AB_body i n (s, a, b) =
           Some (s\<lparr>parts := (parts s)[n := AB_particle s i (a ! n) (b ! n) (parts s ! n)]\<rparr>,
                 a[n := u_at s i (parts s ! n)], b[n := v_at s i (parts s ! n)])"
  using assms
  by (simp add: AB_body_def vec_get_def vec_set_def AB_particle_def u_at_def v_at_def Let_def)

lemma AB_parts_eq:
  assumes "i < length (t s)"
    "\<forall>p \<in> set (parts s). Suc i < length (x p) \<and> Suc i < length (y p)"
    "n \<le> length (parts s)" "length a = length (parts s)" "length b = length (parts s)"
  shows "AB_parts i n (s, a, b) =
           Some (s\<lparr>parts := take n (parts s) @
                    map (\<lambda>k. AB_particle s i (a ! k) (b ! k) (parts s ! k)) [n..<length (parts s)]\<rparr>,
                 take n a @ map (\<lambda>k. u_at s i (parts s ! k)) [n..<length (parts s)],
                 take n b @ map (\<lambda>k. v_at s i (parts s ! k)) [n..<length (parts s)])"
  using assms
proof (induction "length (parts s) - n" arbitrary: n s a b)
  case 0
  then show ?case by (subst AB_parts.simps) simp
next
  case (Suc m)
  let ?ps = "parts s"
  let ?p1 = "AB_particle s i (a ! n) (b ! n) (?ps ! n)"
  let ?ps1 = "?ps[n := ?p1]"
  let ?s1 = "s\<lparr>parts := ?ps1\<rparr>"
  let ?a1 = "a[n := u_at s i (?ps ! n)]"
  let ?b1 = "b[n := v_at s i (?ps ! n)]"
  from Suc.hyps(2) have lt: "n < length ?ps" by simp
  then have mem: "?ps ! n \<in> set ?ps" by simp
  with Suc.prems(2) have room: "Suc i < length (x (?ps ! n))" "Suc i < length (y (?ps ! n))"
    by blast+
  have na: "n < length a" "n < length b" using lt Suc.prems(4,5) by simp_all
  have body: "AB_body i n (s, a, b) = Some (?s1, ?a1, ?b1)"
    by (rule AB_body_eq[OF lt Suc.prems(1) room na])
  have step: "AB_parts i n (s, a, b) = AB_parts i (Suc n) (?s1, ?a1, ?b1)"
    using lt body by (subst AB_parts.simps) simp
  have m: "m = length (parts ?s1) - Suc n" using Suc.hyps(2) by simp
  have t1: "i < length (t ?s1)" using Suc.prems(1) by simp
  have all1: "\<forall>p \<in> set (parts ?s1). Suc i < length (x p) \<and> Suc i < length (y p)"
  proof
    fix p assume "p \<in> set (parts ?s1)"
    then have "p \<in> insert ?p1 (set ?ps)"
      using set_update_subset_insert[of ?ps n] by auto
    then show "Suc i < length (x p) \<and> Suc i < length (y p)"
      using Suc.prems(2) room by auto
  qed
  have n1: "Suc n \<le> length (parts ?s1)" using lt by simp
  have la: "length ?a1 = length (parts ?s1)" "length ?b1 = length (parts ?s1)"
    using Suc.prems(4,5) by simp_all
  have rest: "AB_parts i (Suc n) (?s1, ?a1, ?b1) =
           Some (?s1\<lparr>parts := take (Suc n) ?ps1 @
                    map (\<lambda>k. AB_particle ?s1 i (?a1 ! k) (?b1 ! k) (?ps1 ! k)) [Suc n..<length ?ps1]\<rparr>,
                 take (Suc n) ?a1 @ map (\<lambda>k. u_at ?s1 i (?ps1 ! k)) [Suc n..<length ?ps1],
                 take (Suc n) ?b1 @ map (\<lambda>k. v_at ?s1 i (?ps1 ! k)) [Suc n..<length ?ps1])"
    using Suc.hyps(1)[OF m t1 all1 n1 la] by simp
  have up: "[n..<length ?ps] = n # [Suc n..<length ?ps]" using lt by (simp add: upt_conv_Cons)
  have e1: "take (Suc n) ?ps1 = take n ?ps @ [?p1]"
    using lt by (simp add: take_Suc_conv_app_nth)
  have e2: "take (Suc n) ?a1 = take n a @ [u_at s i (?ps ! n)]"
    using na by (simp add: take_Suc_conv_app_nth)
  have e3: "take (Suc n) ?b1 = take n b @ [v_at s i (?ps ! n)]"
    using na by (simp add: take_Suc_conv_app_nth)
  have m1: "map (\<lambda>k. AB_particle ?s1 i (?a1 ! k) (?b1 ! k) (?ps1 ! k)) [Suc n..<length ?ps1] =
            map (\<lambda>k. AB_particle s i (a ! k) (b ! k) (?ps ! k)) [Suc n..<length ?ps]"
    by (rule map_cong) auto
  have m2: "map (\<lambda>k. u_at ?s1 i (?ps1 ! k)) [Suc n..<length ?ps1] =
            map (\<lambda>k. u_at s i (?ps ! k)) [Suc n..<length ?ps]"
    by (rule map_cong) auto
  have m3: "map (\<lambda>k. v_at ?s1 i (?ps1 ! k)) [Suc n..<length ?ps1] =
            map (\<lambda>k. v_at s i (?ps ! k)) [Suc n..<length ?ps]"
    by (rule map_cong) auto
  show ?case
    unfolding step rest e1 e2 e3 m1 m2 m3 up by simp
qed

lemma AB_parts_all:
  assumes "i < length (t s)"
    "\<forall>p \<in> set (parts s). Suc i < length (x p) \<and> Suc i < length (y p)"
    "length a = length (parts s)" "length b = length (parts s)"
  shows "AB_parts i 0 (s, a, b) =
           Some (s\<lparr>parts := map (\<lambda>k. AB_particle s i (a ! k) (b ! k) (parts s ! k)) [0..<length (parts s)]\<rparr>,
                 map (\<lambda>k. u_at s i (parts s ! k)) [0..<length (parts s)],
                 map (\<lambda>k. v_at s i (parts s ! k)) [0..<length (parts s)])"
  using AB_parts_eq[OF assms(1,2) _ assms(3,4), of 0] by simp

lemma AB_holds_cong:
  assumes "\<forall>k \<le> Suc j. x p ! k = x q ! k \<and> y p ! k = y q ! k"
  shows "AB_holds s p j = AB_holds s q j"
proof -
  have "x p ! Suc j = x q ! Suc j" "y p ! Suc j = y q ! Suc j"
       "x p ! j = x q ! j" "y p ! j = y q ! j"
       "x p ! (j - 1) = x q ! (j - 1)" "y p ! (j - 1) = y q ! (j - 1)"
    using assms by simp_all
  then show ?thesis by (cases "j = 0") (simp_all add: AB_holds_def u_at_def v_at_def)
qed

lemma AB_particle_at:
  "k \<le> i \<Longrightarrow> u_at s k (AB_particle s i um vm p) = u_at s k p"
  "k \<le> i \<Longrightarrow> v_at s k (AB_particle s i um vm p) = v_at s k p"
  by (simp_all add: u_at_def v_at_def AB_particle_below)

lemma AB_particle_holds:
  assumes "Suc i < length (x p)" "Suc i < length (y p)"
    "0 < i \<longrightarrow> um = u_at s (i - 1) p \<and> vm = v_at s (i - 1) p"
  shows "AB_holds s (AB_particle s i um vm p) i"
proof -
  let ?q = "AB_particle s i um vm p"
  have at: "u_at s i ?q = u_at s i p" "v_at s i ?q = v_at s i p"
    "u_at s (i - 1) ?q = u_at s (i - 1) p" "v_at s (i - 1) ?q = v_at s (i - 1) p"
    by (simp_all add: AB_particle_at)
  have low: "x ?q ! i = x p ! i" "y ?q ! i = y p ! i"
    by (simp_all add: AB_particle_below)
  have new: "x ?q ! Suc i = (if i = 0 then euler (x p ! i) (dt s) (u_at s i p)
                             else adams (x p ! i) (dt s) (u_at s i p) um)"
       "y ?q ! Suc i = (if i = 0 then euler (y p ! i) (dt s) (v_at s i p)
                             else adams (y p ! i) (dt s) (v_at s i p) vm)"
    using assms(1,2) by (simp_all add: AB_particle_def)
  show ?thesis
    unfolding AB_holds_def at low new using assms(3) by simp
qed

lemma AB_time_result:
  assumes "t_count s \<le> length (t s)"
    "\<forall>p \<in> set (parts s). t_count s < length (x p) \<and> t_count s < length (y p)"
    "i \<le> t_count s" "length a = length (parts s)" "length b = length (parts s)"
    "0 < i \<longrightarrow> (\<forall>n < length (parts s). a ! n = u_at s (i - 1) (parts s ! n) \<and>
                                        b ! n = v_at s (i - 1) (parts s ! n))"
  shows "\<exists>ps a' b'. AB_time i (s, a, b) = Some (s\<lparr>parts := ps\<rparr>, a', b') \<and>
           length ps = length (parts s) \<and>
           (\<forall>n < length ps.
              length (x (ps ! n)) = length (x (parts s ! n)) \<and>
              length (y (ps ! n)) = length (y (parts s ! n)) \<and>
              (\<forall>k \<le> i. x (ps ! n) ! k = x (parts s ! n) ! k \<and> y (ps ! n) ! k = y (parts s ! n) ! k) \<and>
              (\<forall>j. i \<le> j \<and> j < t_count s \<longrightarrow> AB_holds s (ps ! n) j))"
  using assms
proof (induction "t_count s - i" arbitrary: i s a b)
  case 0
  then have "AB_time i (s, a, b) = Some (s\<lparr>parts := parts s\<rparr>, a, b)"
    by (subst AB_time.simps) simp
  then show ?case using 0 by (intro exI[of _ "parts s"] exI[of _ a] exI[of _ b]) auto
next
  case (Suc m)
  let ?L = "length (parts s)"
  let ?f = "\<lambda>k. AB_particle s i (a ! k) (b ! k) (parts s ! k)"
  let ?s1 = "s\<lparr>parts := map ?f [0..<?L]\<rparr>"
  let ?a1 = "map (\<lambda>k. u_at s i (parts s ! k)) [0..<?L]"
  let ?b1 = "map (\<lambda>k. v_at s i (parts s ! k)) [0..<?L]"
  from Suc.hyps(2) have lt: "i < t_count s" by simp
  have it: "i < length (t s)" using lt Suc.prems(1) by simp
  have room: "\<forall>p \<in> set (parts s). Suc i < length (x p) \<and> Suc i < length (y p)"
    using lt Suc.prems(2) by auto
  have sweep: "AB_parts i 0 (s, a, b) = Some (?s1, ?a1, ?b1)"
    by (rule AB_parts_all[OF it room Suc.prems(4,5)])
  have step: "AB_time i (s, a, b) = AB_time (Suc i) (?s1, ?a1, ?b1)"
    using lt sweep by (subst AB_time.simps) simp
  have m: "m = t_count ?s1 - Suc i" using Suc.hyps(2) by simp
  have a1: "t_count ?s1 \<le> length (t ?s1)" using Suc.prems(1) by simp
  have a2: "\<forall>p \<in> set (parts ?s1). t_count ?s1 < length (x p) \<and> t_count ?s1 < length (y p)"
    using Suc.prems(2) by auto
  have a3: "Suc i \<le> t_count ?s1" using lt by simp
  have a4: "length ?a1 = length (parts ?s1)" "length ?b1 = length (parts ?s1)" by simp_all
  have a5: "0 < Suc i \<longrightarrow> (\<forall>n < length (parts ?s1).
               ?a1 ! n = u_at ?s1 (Suc i - 1) (parts ?s1 ! n) \<and>
               ?b1 ! n = v_at ?s1 (Suc i - 1) (parts ?s1 ! n))"
    by (simp add: AB_particle_at)
  from Suc.hyps(1)[OF m a1 a2 a3 a4 a5] obtain ps a' b' where
    run: "AB_time (Suc i) (?s1, ?a1, ?b1) = Some (?s1\<lparr>parts := ps\<rparr>, a', b')" and
    len: "length ps = ?L" and
    each: "\<forall>n < length ps.
              length (x (ps ! n)) = length (x (parts ?s1 ! n)) \<and>
              length (y (ps ! n)) = length (y (parts ?s1 ! n)) \<and>
              (\<forall>k \<le> Suc i. x (ps ! n) ! k = x (parts ?s1 ! n) ! k \<and>
                            y (ps ! n) ! k = y (parts ?s1 ! n) ! k) \<and>
              (\<forall>j. Suc i \<le> j \<and> j < t_count ?s1 \<longrightarrow> AB_holds ?s1 (ps ! n) j)"
    by auto
  have fin: "AB_time i (s, a, b) = Some (s\<lparr>parts := ps\<rparr>, a', b')" using step run by simp
  have "\<forall>n < length ps.
              length (x (ps ! n)) = length (x (parts s ! n)) \<and>
              length (y (ps ! n)) = length (y (parts s ! n)) \<and>
              (\<forall>k \<le> i. x (ps ! n) ! k = x (parts s ! n) ! k \<and> y (ps ! n) ! k = y (parts s ! n) ! k) \<and>
              (\<forall>j. i \<le> j \<and> j < t_count s \<longrightarrow> AB_holds s (ps ! n) j)"
  proof (intro allI impI)
    fix n assume n: "n < length ps"
    let ?p = "parts s ! n"
    let ?p1 = "AB_particle s i (a ! n) (b ! n) ?p"
    from n len have nl: "n < ?L" by simp
    then have p1: "parts ?s1 ! n = ?p1" by simp
    from nl room have rp: "Suc i < length (x ?p)" "Suc i < length (y ?p)" by auto
    from each n p1 have
      lx: "length (x (ps ! n)) = length (x ?p1)" and
      ly: "length (y (ps ! n)) = length (y ?p1)" and
      low: "\<forall>k \<le> Suc i. x (ps ! n) ! k = x ?p1 ! k \<and> y (ps ! n) ! k = y ?p1 ! k" and
      up: "\<forall>j. Suc i \<le> j \<and> j < t_count s \<longrightarrow> AB_holds s (ps ! n) j"
      by auto
    have keep: "\<forall>k \<le> i. x (ps ! n) ! k = x ?p ! k \<and> y (ps ! n) ! k = y ?p ! k"
      using low by (simp add: AB_particle_below)
    have prev: "0 < i \<longrightarrow> a ! n = u_at s (i - 1) ?p \<and> b ! n = v_at s (i - 1) ?p"
      using Suc.prems(6) nl by simp
    have "AB_holds s (ps ! n) i = AB_holds s ?p1 i"
      by (rule AB_holds_cong[OF low])
    then have here: "AB_holds s (ps ! n) i" using AB_particle_holds[OF rp prev] by simp
    have "\<forall>j. i \<le> j \<and> j < t_count s \<longrightarrow> AB_holds s (ps ! n) j"
    proof (intro allI impI)
      fix j assume j: "i \<le> j \<and> j < t_count s"
      show "AB_holds s (ps ! n) j"
      proof (cases "j = i")
        case True
        with here show ?thesis by simp
      next
        case False
        with j up show ?thesis by simp
      qed
    qed
    with lx ly keep
    show "length (x (ps ! n)) = length (x ?p) \<and>
          length (y (ps ! n)) = length (y ?p) \<and>
          (\<forall>k \<le> i. x (ps ! n) ! k = x ?p ! k \<and> y (ps ! n) ! k = y ?p ! k) \<and>
          (\<forall>j. i \<le> j \<and> j < t_count s \<longrightarrow> AB_holds s (ps ! n) j)"
      by simp
  qed
  with fin len show ?case by blast
qed

text \<open>
  \<open>Adams_step\<close> says that the buffers hold real numbers at \<open>i - 1\<close>, \<open>i\<close> and \<open>i + 1\<close>
  related by the Adams-Bashforth formulas.
\<close>

definition Adams_step :: "Dsys_Anal \<Rightarrow> Particle \<Rightarrow> nat \<Rightarrow> bool" where
  "Adams_step s p i =
     (case (t s ! i, x p ! i, y p ! i) of
        (Some ti, Some xi, Some yi) \<Rightarrow>
          (case (t s ! (i - 1), x p ! (i - 1), y p ! (i - 1)) of
             (Some tj, Some xj, Some yj) \<Rightarrow>
               x p ! (i + 1) = Some (xi + dt s * (3 / 2 * u s ti xi yi - 1 / 2 * u s tj xj yj)) \<and>
               y p ! (i + 1) = Some (yi + dt s * (3 / 2 * v s ti xi yi - 1 / 2 * v s tj xj yj))
           | _ \<Rightarrow> False)
      | _ \<Rightarrow> False)"

lemma adams_Some:
  "adams (Some a) d (cell3 f (Some b) (Some a') (Some c)) (cell3 f (Some b1) (Some a1) (Some c1)) =
     Some (a + d * (3 / 2 * f b a' c - 1 / 2 * f b1 a1 c1))"
  by (simp add: adams_def cell2_def cell3_def)


lemma AB_determinate:
  assumes "\<forall>j < K. AB_holds s p j" "\<forall>j < K. t s ! j \<noteq> None" "x p ! 0 \<noteq> None" "y p ! 0 \<noteq> None"
  shows "k \<le> K \<Longrightarrow> x p ! k \<noteq> None \<and> y p ! k \<noteq> None"
proof (induction k rule: less_induct)
  case (less k)
  show ?case
  proof (cases k)
    case 0
    with assms(3,4) show ?thesis by simp
  next
    case (Suc j)
    with less.prems have j: "j < K" by simp
    from less.IH[of j] Suc j have pj: "x p ! j \<noteq> None" "y p ! j \<noteq> None" by simp_all
    from j assms(1,2) have h: "AB_holds s p j" and tj: "t s ! j \<noteq> None" by simp_all
    from pj tj obtain a b c where e: "x p ! j = Some a" "y p ! j = Some b" "t s ! j = Some c" by auto
    show ?thesis
    proof (cases "j = 0")
      case True
      with h e Suc show ?thesis by (simp add: AB_holds_def u_at_def v_at_def euler_Some)
    next
      case False
      then have j1: "j - 1 < j" "j - 1 < K" using j by simp_all
      from less.IH[of "j - 1"] Suc j1 have "x p ! (j - 1) \<noteq> None" "y p ! (j - 1) \<noteq> None" by simp_all
      moreover from j1 assms(2) have "t s ! (j - 1) \<noteq> None" by simp
      ultimately obtain a1 b1 c1 where
        e1: "x p ! (j - 1) = Some a1" "y p ! (j - 1) = Some b1" "t s ! (j - 1) = Some c1" by auto
      from h e e1 False Suc show ?thesis
        by (simp add: AB_holds_def u_at_def v_at_def adams_Some)
    qed
  qed
qed

lemma AB_Euler_step:
  assumes "\<forall>j < K. AB_holds s p j" "\<forall>j < K. t s ! j \<noteq> None" "x p ! 0 \<noteq> None" "y p ! 0 \<noteq> None"
    "0 < K"
  shows "Euler_step s p 0"
proof -
  from assms(2-5) obtain a b c where e: "x p ! 0 = Some a" "y p ! 0 = Some b" "t s ! 0 = Some c"
    by auto
  from assms(1,5) have "AB_holds s p 0" by simp
  with e show ?thesis by (simp add: Euler_step_def AB_holds_def u_at_def v_at_def euler_Some)
qed

lemma AB_Adams_step:
  assumes "\<forall>j < K. AB_holds s p j" "\<forall>j < K. t s ! j \<noteq> None" "x p ! 0 \<noteq> None" "y p ! 0 \<noteq> None"
    "1 \<le> i" "i < K"
  shows "Adams_step s p i"
proof -
  from AB_determinate[OF assms(1-4), of i] AB_determinate[OF assms(1-4), of "i - 1"] assms(6)
  have "x p ! i \<noteq> None" "y p ! i \<noteq> None" "x p ! (i - 1) \<noteq> None" "y p ! (i - 1) \<noteq> None"
    by simp_all
  moreover from assms(2,6) have "t s ! i \<noteq> None" "t s ! (i - 1) \<noteq> None" by simp_all
  ultimately obtain a b c a1 b1 c1 where
    e: "x p ! i = Some a" "y p ! i = Some b" "t s ! i = Some c"
       "x p ! (i - 1) = Some a1" "y p ! (i - 1) = Some b1" "t s ! (i - 1) = Some c1"
    by auto
  from assms(1,6) have "AB_holds s p i" by simp
  with e assms(5) show ?thesis
    by (simp add: Adams_step_def AB_holds_def u_at_def v_at_def adams_Some)
qed

text \<open>
  C2. On a ready state \<open>MarchAB\<close> returns. Its step at time index 0 is the Euler step:
  it writes at index 1 the values \<open>MarchEE\<close> writes there on the same state. For a time
  index \<open>i \<ge> 1\<close> and a particle \<open>n\<close>,
  \<open>x[n][i+1] = x[n][i] + dt * (3/2 * u_n - 1/2 * u_prev[n])\<close> and likewise for \<open>y\<close> with \<open>v\<close>,
  where \<open>u_n\<close> and \<open>u_prev[n]\<close> are the velocity components evaluated at steps \<open>i\<close> and
  \<open>i - 1\<close> for that particle: as equations between cells in general, and between real
  numbers when the particle is determinate.
\<close>

theorem MarchAB_recurrence:
  assumes "ready s"
  shows "\<exists>sa. MarchAB s = Some sa \<and> t sa = t s \<and> dt sa = dt s \<and>
           length (parts sa) = length (parts s) \<and>
           (\<forall>n < length (parts s).
              x (parts sa ! n) ! 0 = x (parts s ! n) ! 0 \<and>
              y (parts sa ! n) ! 0 = y (parts s ! n) ! 0 \<and>
              (0 < t_count s \<longrightarrow>
                 x (parts sa ! n) ! 1 = euler (x (parts s ! n) ! 0) (dt s) (u_at s 0 (parts s ! n)) \<and>
                 y (parts sa ! n) ! 1 = euler (y (parts s ! n) ! 0) (dt s) (v_at s 0 (parts s ! n)) \<and>
                 (\<exists>se. MarchEE s = Some se \<and>
                    x (parts sa ! n) ! 1 = x (parts se ! n) ! 1 \<and>
                    y (parts sa ! n) ! 1 = y (parts se ! n) ! 1)) \<and>
              (\<forall>i. 1 \<le> i \<and> i < t_count s \<longrightarrow>
                 x (parts sa ! n) ! (i + 1) =
                   adams (x (parts sa ! n) ! i) (dt s)
                     (u_at s i (parts sa ! n)) (u_at s (i - 1) (parts sa ! n)) \<and>
                 y (parts sa ! n) ! (i + 1) =
                   adams (y (parts sa ! n) ! i) (dt s)
                     (v_at s i (parts sa ! n)) (v_at s (i - 1) (parts sa ! n))) \<and>
              (determinate s (parts s ! n) \<longrightarrow>
                 (0 < t_count s \<longrightarrow> Euler_step s (parts sa ! n) 0) \<and>
                 (\<forall>i. 1 \<le> i \<and> i < t_count s \<longrightarrow> Adams_step s (parts sa ! n) i)))"
proof -
  let ?L = "length (parts s)"
  from AB_time_result[OF ready_room[OF assms], of 0 "replicate ?L None" "replicate ?L None"]
  obtain ps a' b' where
    run: "AB_time 0 (s, replicate ?L None, replicate ?L None) = Some (s\<lparr>parts := ps\<rparr>, a', b')" and
    len: "length ps = ?L" and
    each: "\<forall>n < length ps.
              (\<forall>k \<le> 0. x (ps ! n) ! k = x (parts s ! n) ! k \<and> y (ps ! n) ! k = y (parts s ! n) ! k) \<and>
              (\<forall>j. 0 \<le> j \<and> j < t_count s \<longrightarrow> AB_holds s (ps ! n) j)"
    by auto
  from EE_time_result[OF ready_room[OF assms], of 0] obtain qs where
    runE: "EE_time 0 s = Some (s\<lparr>parts := qs\<rparr>)" and
    lenE: "length qs = ?L" and
    eachE: "\<forall>n < length qs.
              (\<forall>k \<le> 0. x (qs ! n) ! k = x (parts s ! n) ! k \<and> y (qs ! n) ! k = y (parts s ! n) ! k) \<and>
              (\<forall>j. 0 \<le> j \<and> j < t_count s \<longrightarrow> EE_holds s (qs ! n) j)"
    by auto
  have ab: "MarchAB s = Some (s\<lparr>parts := ps\<rparr>)" using run by (simp add: MarchAB_def)
  have ee: "MarchEE s = Some (s\<lparr>parts := qs\<rparr>)" using runE by (simp add: MarchEE_def)
  have "\<forall>n < ?L.
              x (ps ! n) ! 0 = x (parts s ! n) ! 0 \<and>
              y (ps ! n) ! 0 = y (parts s ! n) ! 0 \<and>
              (0 < t_count s \<longrightarrow>
                 x (ps ! n) ! 1 = euler (x (parts s ! n) ! 0) (dt s) (u_at s 0 (parts s ! n)) \<and>
                 y (ps ! n) ! 1 = euler (y (parts s ! n) ! 0) (dt s) (v_at s 0 (parts s ! n)) \<and>
                 (\<exists>se. MarchEE s = Some se \<and>
                    x (ps ! n) ! 1 = x (parts se ! n) ! 1 \<and>
                    y (ps ! n) ! 1 = y (parts se ! n) ! 1)) \<and>
              (\<forall>i. 1 \<le> i \<and> i < t_count s \<longrightarrow>
                 x (ps ! n) ! (i + 1) =
                   adams (x (ps ! n) ! i) (dt s) (u_at s i (ps ! n)) (u_at s (i - 1) (ps ! n)) \<and>
                 y (ps ! n) ! (i + 1) =
                   adams (y (ps ! n) ! i) (dt s) (v_at s i (ps ! n)) (v_at s (i - 1) (ps ! n))) \<and>
              (determinate s (parts s ! n) \<longrightarrow>
                 (0 < t_count s \<longrightarrow> Euler_step s (ps ! n) 0) \<and>
                 (\<forall>i. 1 \<le> i \<and> i < t_count s \<longrightarrow> Adams_step s (ps ! n) i))"
  proof (intro allI impI)
    fix n assume n: "n < ?L"
    let ?p = "parts s ! n"
    from each n len have
      p0: "x (ps ! n) ! 0 = x ?p ! 0" "y (ps ! n) ! 0 = y ?p ! 0" and
      ph: "\<forall>j. j < t_count s \<longrightarrow> AB_holds s (ps ! n) j"
      by auto
    from eachE n lenE have
      q0: "x (qs ! n) ! 0 = x ?p ! 0" "y (qs ! n) ! 0 = y ?p ! 0" and
      qh: "\<forall>j. j < t_count s \<longrightarrow> EE_holds s (qs ! n) j"
      by auto
    have first: "0 < t_count s \<longrightarrow>
                 x (ps ! n) ! 1 = euler (x ?p ! 0) (dt s) (u_at s 0 ?p) \<and>
                 y (ps ! n) ! 1 = euler (y ?p ! 0) (dt s) (v_at s 0 ?p) \<and>
                 (\<exists>se. MarchEE s = Some se \<and>
                    x (ps ! n) ! 1 = x (parts se ! n) ! 1 \<and>
                    y (ps ! n) ! 1 = y (parts se ! n) ! 1)"
    proof
      assume pos: "0 < t_count s"
      with ph have "AB_holds s (ps ! n) 0" by simp
      then have a: "x (ps ! n) ! 1 = euler (x ?p ! 0) (dt s) (u_at s 0 ?p)"
                   "y (ps ! n) ! 1 = euler (y ?p ! 0) (dt s) (v_at s 0 ?p)"
        using p0 by (simp_all add: AB_holds_def u_at_def v_at_def)
      from pos qh have "EE_holds s (qs ! n) 0" by simp
      then have e: "x (qs ! n) ! 1 = euler (x ?p ! 0) (dt s) (u_at s 0 ?p)"
                   "y (qs ! n) ! 1 = euler (y ?p ! 0) (dt s) (v_at s 0 ?p)"
        using q0 by (simp_all add: EE_holds_def u_at_def v_at_def)
      from a e ee show "x (ps ! n) ! 1 = euler (x ?p ! 0) (dt s) (u_at s 0 ?p) \<and>
                 y (ps ! n) ! 1 = euler (y ?p ! 0) (dt s) (v_at s 0 ?p) \<and>
                 (\<exists>se. MarchEE s = Some se \<and>
                    x (ps ! n) ! 1 = x (parts se ! n) ! 1 \<and>
                    y (ps ! n) ! 1 = y (parts se ! n) ! 1)"
        by simp
    qed
    have later: "\<forall>i. 1 \<le> i \<and> i < t_count s \<longrightarrow>
                 x (ps ! n) ! (i + 1) =
                   adams (x (ps ! n) ! i) (dt s) (u_at s i (ps ! n)) (u_at s (i - 1) (ps ! n)) \<and>
                 y (ps ! n) ! (i + 1) =
                   adams (y (ps ! n) ! i) (dt s) (v_at s i (ps ! n)) (v_at s (i - 1) (ps ! n))"
    proof (intro allI impI)
      fix i assume i: "1 \<le> i \<and> i < t_count s"
      with ph have "AB_holds s (ps ! n) i" by simp
      with i show "x (ps ! n) ! (i + 1) =
                   adams (x (ps ! n) ! i) (dt s) (u_at s i (ps ! n)) (u_at s (i - 1) (ps ! n)) \<and>
                 y (ps ! n) ! (i + 1) =
                   adams (y (ps ! n) ! i) (dt s) (v_at s i (ps ! n)) (v_at s (i - 1) (ps ! n))"
        by (simp add: AB_holds_def)
    qed
    have det: "determinate s (parts s ! n) \<longrightarrow>
                 (0 < t_count s \<longrightarrow> Euler_step s (ps ! n) 0) \<and>
                 (\<forall>i. 1 \<le> i \<and> i < t_count s \<longrightarrow> Adams_step s (ps ! n) i)"
    proof (intro impI conjI allI)
      assume d: "determinate s (parts s ! n)" and pos: "0 < t_count s"
      from d p0 have "x (ps ! n) ! 0 \<noteq> None" "y (ps ! n) ! 0 \<noteq> None"
        by (simp_all add: determinate_def)
      from AB_Euler_step[OF ph determinate_times[OF d] this pos]
      show "Euler_step s (ps ! n) 0" .
    next
      fix i assume d: "determinate s (parts s ! n)" and i: "1 \<le> i \<and> i < t_count s"
      from d p0 have "x (ps ! n) ! 0 \<noteq> None" "y (ps ! n) ! 0 \<noteq> None"
        by (simp_all add: determinate_def)
      from AB_Adams_step[OF ph determinate_times[OF d] this] i
      show "Adams_step s (ps ! n) i" by simp
    qed
    from p0 first later det
    show "x (ps ! n) ! 0 = x ?p ! 0 \<and>
              y (ps ! n) ! 0 = y ?p ! 0 \<and>
              (0 < t_count s \<longrightarrow>
                 x (ps ! n) ! 1 = euler (x ?p ! 0) (dt s) (u_at s 0 ?p) \<and>
                 y (ps ! n) ! 1 = euler (y ?p ! 0) (dt s) (v_at s 0 ?p) \<and>
                 (\<exists>se. MarchEE s = Some se \<and>
                    x (ps ! n) ! 1 = x (parts se ! n) ! 1 \<and>
                    y (ps ! n) ! 1 = y (parts se ! n) ! 1)) \<and>
              (\<forall>i. 1 \<le> i \<and> i < t_count s \<longrightarrow>
                 x (ps ! n) ! (i + 1) =
                   adams (x (ps ! n) ! i) (dt s) (u_at s i (ps ! n)) (u_at s (i - 1) (ps ! n)) \<and>
                 y (ps ! n) ! (i + 1) =
                   adams (y (ps ! n) ! i) (dt s) (v_at s i (ps ! n)) (v_at s (i - 1) (ps ! n))) \<and>
              (determinate s (parts s ! n) \<longrightarrow>
                 (0 < t_count s \<longrightarrow> Euler_step s (ps ! n) 0) \<and>
                 (\<forall>i. 1 \<le> i \<and> i < t_count s \<longrightarrow> Adams_step s (ps ! n) i))"
      by blast
  qed
  moreover have psa: "parts (s\<lparr>parts := ps\<rparr>) = ps" by simp
  ultimately have main: "\<forall>n < ?L.
              x (parts (s\<lparr>parts := ps\<rparr>) ! n) ! 0 = x (parts s ! n) ! 0 \<and>
              y (parts (s\<lparr>parts := ps\<rparr>) ! n) ! 0 = y (parts s ! n) ! 0 \<and>
              (0 < t_count s \<longrightarrow>
                 x (parts (s\<lparr>parts := ps\<rparr>) ! n) ! 1 =
                   euler (x (parts s ! n) ! 0) (dt s) (u_at s 0 (parts s ! n)) \<and>
                 y (parts (s\<lparr>parts := ps\<rparr>) ! n) ! 1 =
                   euler (y (parts s ! n) ! 0) (dt s) (v_at s 0 (parts s ! n)) \<and>
                 (\<exists>se. MarchEE s = Some se \<and>
                    x (parts (s\<lparr>parts := ps\<rparr>) ! n) ! 1 = x (parts se ! n) ! 1 \<and>
                    y (parts (s\<lparr>parts := ps\<rparr>) ! n) ! 1 = y (parts se ! n) ! 1)) \<and>
              (\<forall>i. 1 \<le> i \<and> i < t_count s \<longrightarrow>
                 x (parts (s\<lparr>parts := ps\<rparr>) ! n) ! (i + 1) =
                   adams (x (parts (s\<lparr>parts := ps\<rparr>) ! n) ! i) (dt s)
                     (u_at s i (parts (s\<lparr>parts := ps\<rparr>) ! n))
                     (u_at s (i - 1) (parts (s\<lparr>parts := ps\<rparr>) ! n)) \<and>
                 y (parts (s\<lparr>parts := ps\<rparr>) ! n) ! (i + 1) =
                   adams (y (parts (s\<lparr>parts := ps\<rparr>) ! n) ! i) (dt s)
                     (v_at s i (parts (s\<lparr>parts := ps\<rparr>) ! n))
                     (v_at s (i - 1) (parts (s\<lparr>parts := ps\<rparr>) ! n))) \<and>
              (determinate s (parts s ! n) \<longrightarrow>
                 (0 < t_count s \<longrightarrow> Euler_step s (parts (s\<lparr>parts := ps\<rparr>) ! n) 0) \<and>
                 (\<forall>i. 1 \<le> i \<and> i < t_count s \<longrightarrow>
                    Adams_step s (parts (s\<lparr>parts := ps\<rparr>) ! n) i))"
    by (simp only:)
  show ?thesis
  proof (intro exI conjI)
    show "MarchAB s = Some (s\<lparr>parts := ps\<rparr>)" by (rule ab)
    show "t (s\<lparr>parts := ps\<rparr>) = t s" by simp
    show "dt (s\<lparr>parts := ps\<rparr>) = dt s" by simp
    show "length (parts (s\<lparr>parts := ps\<rparr>)) = length (parts s)" using len by simp
  qed (rule main)
qed

theorem MarchAB_recurrence_witness:
  "ready shear \<and>
   (\<exists>sa. MarchAB shear = Some sa \<and>
      x (parts sa ! 1) ! 1 = Some 6 \<and> y (parts sa ! 1) ! 1 = Some 7 \<and>
      x (parts sa ! 1) ! 2 = Some 7 \<and> y (parts sa ! 1) ! 2 = Some (17 / 2) \<and>
      (\<exists>se. MarchEE shear = Some se \<and>
         x (parts sa ! 1) ! 1 = x (parts se ! 1) ! 1 \<and>
         y (parts sa ! 1) ! 1 = y (parts se ! 1) ! 1) \<and>
      determinate shear (parts shear ! 1) \<and> Adams_step shear (parts sa ! 1) 1)"
proof -
  let ?p = "parts shear ! 1"
  from MarchAB_recurrence[OF ready_shear] obtain sa where
    run: "MarchAB shear = Some sa" and
    each: "\<forall>n < length (parts shear).
              x (parts sa ! n) ! 0 = x (parts shear ! n) ! 0 \<and>
              y (parts sa ! n) ! 0 = y (parts shear ! n) ! 0 \<and>
              (0 < t_count shear \<longrightarrow>
                 x (parts sa ! n) ! 1 = euler (x (parts shear ! n) ! 0) (dt shear) (u_at shear 0 (parts shear ! n)) \<and>
                 y (parts sa ! n) ! 1 = euler (y (parts shear ! n) ! 0) (dt shear) (v_at shear 0 (parts shear ! n)) \<and>
                 (\<exists>se. MarchEE shear = Some se \<and>
                    x (parts sa ! n) ! 1 = x (parts se ! n) ! 1 \<and>
                    y (parts sa ! n) ! 1 = y (parts se ! n) ! 1)) \<and>
              (\<forall>i. 1 \<le> i \<and> i < t_count shear \<longrightarrow>
                 x (parts sa ! n) ! (i + 1) =
                   adams (x (parts sa ! n) ! i) (dt shear)
                     (u_at shear i (parts sa ! n)) (u_at shear (i - 1) (parts sa ! n)) \<and>
                 y (parts sa ! n) ! (i + 1) =
                   adams (y (parts sa ! n) ! i) (dt shear)
                     (v_at shear i (parts sa ! n)) (v_at shear (i - 1) (parts sa ! n))) \<and>
              (determinate shear (parts shear ! n) \<longrightarrow>
                 (0 < t_count shear \<longrightarrow> Euler_step shear (parts sa ! n) 0) \<and>
                 (\<forall>i. 1 \<le> i \<and> i < t_count shear \<longrightarrow> Adams_step shear (parts sa ! n) i))"
    by blast
  have "1 < length (parts shear)" "0 < t_count shear" "1 \<le> (1::nat) \<and> 1 < t_count shear"
    by (simp_all add: shear_def)
  with each have
    a0: "x (parts sa ! 1) ! 0 = x ?p ! 0" "y (parts sa ! 1) ! 0 = y ?p ! 0" and
    a1: "x (parts sa ! 1) ! 1 = euler (x ?p ! 0) (dt shear) (u_at shear 0 ?p)"
        "y (parts sa ! 1) ! 1 = euler (y ?p ! 0) (dt shear) (v_at shear 0 ?p)" and
    ee: "\<exists>se. MarchEE shear = Some se \<and>
           x (parts sa ! 1) ! 1 = x (parts se ! 1) ! 1 \<and>
           y (parts sa ! 1) ! 1 = y (parts se ! 1) ! 1" and
    a2: "x (parts sa ! 1) ! (1 + 1) =
           adams (x (parts sa ! 1) ! 1) (dt shear)
             (u_at shear 1 (parts sa ! 1)) (u_at shear (1 - 1) (parts sa ! 1))"
        "y (parts sa ! 1) ! (1 + 1) =
           adams (y (parts sa ! 1) ! 1) (dt shear)
             (v_at shear 1 (parts sa ! 1)) (v_at shear (1 - 1) (parts sa ! 1))" and
    det: "determinate shear (parts shear ! 1) \<longrightarrow>
            (\<forall>i. 1 \<le> i \<and> i < t_count shear \<longrightarrow> Adams_step shear (parts sa ! 1) i)"
    by blast+
  have b0: "x (parts sa ! 1) ! 0 = Some 5" "y (parts sa ! 1) ! 0 = Some 7"
    using a0 by (simp_all add: shear_def)
  have b1: "x (parts sa ! 1) ! 1 = Some 6" "y (parts sa ! 1) ! 1 = Some 7"
    using a1 by (simp_all add: shear_def euler_def u_at_def v_at_def cell2_def cell3_def)
  have b2: "x (parts sa ! 1) ! 2 = Some 7" "y (parts sa ! 1) ! 2 = Some (17 / 2)"
    using a2 b0 b1
    by (simp_all add: shear_def adams_def u_at_def v_at_def cell2_def cell3_def numeral_2_eq_2)
  have d: "determinate shear (parts shear ! 1)"
    by (simp add: determinate_def shear_def numeral_2_eq_2)
  with det have "Adams_step shear (parts sa ! 1) 1" by (simp add: shear_def)
  with d show ?thesis using ready_shear run b1 b2 ee by simp
qed

lemma EE_body_defined:
  "(EE_body i n c \<noteq> None) =
     (n < length (parts c) \<and> i < length (t c) \<and>
      i + 1 < length (x (parts c ! n)) \<and> i + 1 < length (y (parts c ! n)))"
  by (auto simp: EE_body_def vec_get_def vec_set_def Let_def split: Option.bind_splits)

lemma AB_body_defined:
  "(AB_body i n (c, a, b) \<noteq> None) =
     (n < length (parts c) \<and> i < length (t c) \<and>
      i + 1 < length (x (parts c ! n)) \<and> i + 1 < length (y (parts c ! n)) \<and>
      n < length a \<and> n < length b)"
  by (auto simp: AB_body_def vec_get_def vec_set_def Let_def split: Option.bind_splits)

lemma ready_parts:
  assumes "ready s" "length ps = length (parts s)"
    "\<forall>n < length ps. length (x (ps ! n)) = length (x (parts s ! n)) \<and>
                      length (y (ps ! n)) = length (y (parts s ! n))"
  shows "ready (s\<lparr>parts := ps\<rparr>)"
  using assms by (simp add: ready_def list_all_length)

text \<open>
  C10. On a ready state (time sequence of length \<open>t_count\<close>, position buffers of length
  \<open>t_count + 1\<close>) both integrators return a state: no access leaves its buffer. The loop
  body for time index \<open>i\<close> is defined exactly when slot \<open>i\<close> of the time sequence and slot
  \<open>i + 1\<close> of the particle's buffers exist (it reads at \<open>i\<close> and writes at \<open>i + 1\<close>), and
  the loops run it for \<open>i < t_count\<close> only. The state returned is ready again.
\<close>

theorem March_in_bounds:
  assumes "ready s"
  shows "(\<exists>s'. MarchEE s = Some s' \<and> ready s') \<and>
         (\<exists>s'. MarchAB s = Some s' \<and> ready s') \<and>
         (\<forall>i n c. (EE_body i n c \<noteq> None) =
            (n < length (parts c) \<and> i < length (t c) \<and>
             i + 1 < length (x (parts c ! n)) \<and> i + 1 < length (y (parts c ! n)))) \<and>
         (\<forall>i n c a b. (AB_body i n (c, a, b) \<noteq> None) =
            (n < length (parts c) \<and> i < length (t c) \<and>
             i + 1 < length (x (parts c ! n)) \<and> i + 1 < length (y (parts c ! n)) \<and>
             n < length a \<and> n < length b))"
proof -
  let ?L = "length (parts s)"
  from EE_time_result[OF ready_room[OF assms], of 0] obtain qs where
    runE: "EE_time 0 s = Some (s\<lparr>parts := qs\<rparr>)" and
    lenE: "length qs = ?L" and
    eachE: "\<forall>n < length qs. length (x (qs ! n)) = length (x (parts s ! n)) \<and>
                             length (y (qs ! n)) = length (y (parts s ! n))"
    by auto
  from AB_time_result[OF ready_room[OF assms], of 0 "replicate ?L None" "replicate ?L None"]
  obtain ps a' b' where
    run: "AB_time 0 (s, replicate ?L None, replicate ?L None) = Some (s\<lparr>parts := ps\<rparr>, a', b')" and
    len: "length ps = ?L" and
    each: "\<forall>n < length ps. length (x (ps ! n)) = length (x (parts s ! n)) \<and>
                            length (y (ps ! n)) = length (y (parts s ! n))"
    by auto
  have "MarchEE s = Some (s\<lparr>parts := qs\<rparr>)" using runE by (simp add: MarchEE_def)
  moreover have "ready (s\<lparr>parts := qs\<rparr>)" by (rule ready_parts[OF assms lenE eachE])
  ultimately have ee: "\<exists>s'. MarchEE s = Some s' \<and> ready s'" by blast
  have "MarchAB s = Some (s\<lparr>parts := ps\<rparr>)" using run by (simp add: MarchAB_def)
  moreover have "ready (s\<lparr>parts := ps\<rparr>)" by (rule ready_parts[OF assms len each])
  ultimately have ab: "\<exists>s'. MarchAB s = Some s' \<and> ready s'" by blast
  show ?thesis using ee ab EE_body_defined AB_body_defined by blast
qed

theorem March_in_bounds_witness:
  "ready shear \<and> MarchEE shear = Some shear_EE \<and> ready shear_EE \<and>
   MarchAB shear = Some shear_AB \<and> ready shear_AB \<and>
   EE_body 1 1 shear \<noteq> None \<and> EE_body 2 1 shear = None"
proof -
  from March_in_bounds[OF ready_shear] obtain se sa where
    e: "MarchEE shear = Some se" "ready se" and
    a: "MarchAB shear = Some sa" "ready sa" and
    bd: "\<forall>i n c. (EE_body i n c \<noteq> None) =
            (n < length (parts c) \<and> i < length (t c) \<and>
             i + 1 < length (x (parts c ! n)) \<and> i + 1 < length (y (parts c ! n)))"
    by blast
  have "se = shear_EE" using e(1) MarchEE_shear by simp
  moreover have "sa = shear_AB" using a(1) MarchAB_shear by simp
  moreover have "EE_body 1 1 shear \<noteq> None"
    unfolding bd[rule_format] by (simp add: shear_def)
  moreover have "\<not> EE_body 2 1 shear \<noteq> None"
    unfolding bd[rule_format] by (simp add: shear_def)
  ultimately show ?thesis using ready_shear e a by simp
qed

section \<open>Inspector and exporter\<close>

text \<open>
  What \<open>PrintTraj\<close> sends to standard output, line by line: the header
  \<open>printf("%6c%6c%6c\n", 't', 'x', 'y')\<close> is the text below, and a data line carries the three
  doubles that \<open>printf("%6.2f%6.2f%6.2f\n", ...)\<close> formats.
\<close>

datatype line = Text string | Row cell cell cell

definition header :: line where
  "header = Text ''     t     x     y''"

text \<open>
  The loop of \<open>PrintTraj\<close>, entered at time index \<open>i\<close> with the lines printed so far. The
  argument \<open>n\<close> is an \<open>int\<close>; \<open>parts[n]\<close> is an unchecked \<open>std::vector\<close> access, undefined
  for an index outside the store. The lines printed before such an access stay printed.
\<close>

function PrintTraj_loop :: "int \<Rightarrow> nat \<Rightarrow> Dsys_Anal \<Rightarrow> line list \<Rightarrow> line list \<times> status" where
  "PrintTraj_loop n i s out =
     (if i < t_count s then
        (if 0 \<le> n \<and> nat n < length (parts s) then
           (case vec_get (t s) i of
              None \<Rightarrow> (out, Undefined)
            | Some ti \<Rightarrow>
           (case vec_get (x (parts s ! nat n)) i of
              None \<Rightarrow> (out, Undefined)
            | Some xi \<Rightarrow>
           (case vec_get (y (parts s ! nat n)) i of
              None \<Rightarrow> (out, Undefined)
            | Some yi \<Rightarrow> PrintTraj_loop n (Suc i) s (out @ [Row ti xi yi]))))
         else (out, Undefined))
      else (out, Ok))"
  by pat_completeness auto
termination
  by (relation "measure (\<lambda>(n, i, s, out). t_count s - i)") auto

declare PrintTraj_loop.simps [simp del]

definition PrintTraj :: "int \<Rightarrow> Dsys_Anal \<Rightarrow> line list \<times> status" where
  "PrintTraj n s = PrintTraj_loop n 0 s [header]"

text \<open>
  The document \<open>ExportData\<close> builds with the json library. An object is a list of
  key-value pairs with distinct keys, looked up by key; the order of the pairs carries no
  meaning here (the library keeps its objects sorted by key). Rendering the document as
  indented text is the library's business: a file's content is the document written to it.
\<close>

datatype json = JNull | JNum cell | JArr "json list" | JObj "(string \<times> json) list"

fun obj_put :: "string \<Rightarrow> json \<Rightarrow> (string \<times> json) list \<Rightarrow> (string \<times> json) list" where
  "obj_put k w [] = [(k, w)]"
| "obj_put k w ((k', w') # kvs) = (if k = k' then (k, w) # kvs else (k', w') # obj_put k w kvs)"

definition obj_get :: "string \<Rightarrow> json \<Rightarrow> json option" where
  "obj_get k j = (case j of JObj kvs \<Rightarrow> map_of kvs k | _ \<Rightarrow> None)"

text \<open>
  \<open>j[key]\<close> and \<open>j[idx]\<close> give a reference to a slot of \<open>j\<close>, which the rest of the
  expression works on (\<open>f\<close>). On \<open>null\<close> they first turn \<open>j\<close> into an empty object or
  array; a missing key is added with value \<open>null\<close>; an array is filled with \<open>null\<close> up to
  the index. On a value of another kind the library throws \<open>type_error\<close> (\<open>None\<close>).
\<close>

fun mod_key :: "string \<Rightarrow> (json \<Rightarrow> json option) \<Rightarrow> json \<Rightarrow> json option" where
  "mod_key k f JNull = map_option (\<lambda>w. JObj [(k, w)]) (f JNull)"
| "mod_key k f (JObj kvs) =
     map_option (\<lambda>w. JObj (obj_put k w kvs))
       (f (case map_of kvs k of None \<Rightarrow> JNull | Some w \<Rightarrow> w))"
| "mod_key k f (JNum c) = None"
| "mod_key k f (JArr js) = None"

fun mod_idx :: "nat \<Rightarrow> (json \<Rightarrow> json option) \<Rightarrow> json \<Rightarrow> json option" where
  "mod_idx n f JNull =
     map_option (\<lambda>w. JArr ((replicate (Suc n) JNull)[n := w])) (f JNull)"
| "mod_idx n f (JArr js) =
     map_option (\<lambda>w. JArr ((js @ replicate (Suc n - length js) JNull)[n := w]))
       (f ((js @ replicate (Suc n - length js) JNull) ! n))"
| "mod_idx n f (JNum c) = None"
| "mod_idx n f (JObj kvs) = None"

definition assign :: "json \<Rightarrow> json \<Rightarrow> json option" where
  "assign w slot = Some w"

definition vec_json :: "vec \<Rightarrow> json" where
  "vec_json a = JArr (map JNum a)"

text \<open>The loop of \<open>ExportData\<close> over the particles, entered at particle \<open>n\<close>.\<close>

function ExportData_loop :: "nat \<Rightarrow> Dsys_Anal \<Rightarrow> json \<Rightarrow> json option" where
  "ExportData_loop n s j =
     (if n < length (parts s) then
        (case mod_key ''parts'' (mod_idx n (mod_key ''x'' (assign (vec_json (x (parts s ! n)))))) j of
           None \<Rightarrow> None
         | Some j1 \<Rightarrow>
        (case mod_key ''parts'' (mod_idx n (mod_key ''y'' (assign (vec_json (y (parts s ! n)))))) j1 of
           None \<Rightarrow> None
         | Some j2 \<Rightarrow> ExportData_loop (Suc n) s j2))
      else Some j)"
  by pat_completeness auto
termination
  by (relation "measure (\<lambda>(n, s, j). length (parts s) - n)") auto

declare ExportData_loop.simps [simp del]

definition ExportData_json :: "Dsys_Anal \<Rightarrow> json option" where
  "ExportData_json s = do {
     j1 \<leftarrow> mod_key ''t'' (assign (vec_json (t s))) JNull;
     j2 \<leftarrow> mod_key ''parts'' (assign (JArr [])) j1;
     ExportData_loop 0 s j2
   }"

text \<open>
  The files the program can see: which paths can be opened for writing, and what each
  existing file holds. \<open>std::ofstream outfile(filename)\<close> truncates the file when the path
  can be opened; when it cannot, the stream is in a failed state, the output operation that follows
  writes nothing, and no exception is raised (the stream's exception mask is left empty).
\<close>

record filesystem =
  writable :: "string \<Rightarrow> bool"
  files :: "string \<Rightarrow> json option"

definition ExportData :: "string \<Rightarrow> Dsys_Anal \<Rightarrow> filesystem \<Rightarrow> status \<times> filesystem" where
  "ExportData filename s fs =
     (case ExportData_json s of
        None \<Rightarrow> (Raised TypeError, fs)
      | Some j \<Rightarrow>
          (Ok, if writable fs filename then fs\<lparr>files := (files fs)(filename \<mapsto> j)\<rparr> else fs))"

lemma PrintTraj_loop_valid:
  assumes "0 \<le> n" "nat n < length (parts s)" "t_count s \<le> length (t s)"
    "t_count s \<le> length (x (parts s ! nat n))" "t_count s \<le> length (y (parts s ! nat n))"
    "i \<le> t_count s"
  shows "PrintTraj_loop n i s out =
           (out @ map (\<lambda>k. Row (t s ! k) (x (parts s ! nat n) ! k) (y (parts s ! nat n) ! k))
                    [i..<t_count s], Ok)"
  using assms
proof (induction "t_count s - i" arbitrary: i out)
  case 0
  then show ?case by (subst PrintTraj_loop.simps) simp
next
  case (Suc m)
  then have lt: "i < t_count s" by simp
  let ?row = "Row (t s ! i) (x (parts s ! nat n) ! i) (y (parts s ! nat n) ! i)"
  have step: "PrintTraj_loop n i s out = PrintTraj_loop n (Suc i) s (out @ [?row])"
    using lt Suc.prems by (subst PrintTraj_loop.simps) (simp add: vec_get_def)
  have "m = t_count s - Suc i" using Suc.hyps(2) by simp
  from Suc.hyps(1)[OF this Suc.prems(1-5), of "out @ [?row]"] lt
  have "PrintTraj_loop n (Suc i) s (out @ [?row]) =
          ((out @ [?row]) @ map (\<lambda>k. Row (t s ! k) (x (parts s ! nat n) ! k) (y (parts s ! nat n) ! k))
                    [Suc i..<t_count s], Ok)"
    by simp
  moreover have "[i..<t_count s] = i # [Suc i..<t_count s]" using lt by (simp add: upt_conv_Cons)
  ultimately show ?case using step by simp
qed

lemma PrintTraj_loop_invalid:
  assumes "\<not> (0 \<le> n \<and> nat n < length (parts s))"
  shows "PrintTraj_loop n i s out = (out, if i < t_count s then Undefined else Ok)"
  using assms by (subst PrintTraj_loop.simps) auto

lemma ready_nth:
  assumes "ready s" "k < length (parts s)"
  shows "length (x (parts s ! k)) = t_count s + 1" "length (y (parts s ! k)) = t_count s + 1"
    "length (t s) = t_count s"
  using assms by (simp_all add: ready_def list_all_length)

text \<open>
  C5 (amended). \<open>PrintTraj\<close> checks no index and raises no condition; the header line is
  always printed first. For a valid particle index on a ready state it then prints one line
  per time index \<open>i\<close> in \<open>[0, t_count)\<close> with \<open>t[i]\<close>, \<open>x[n][i]\<close>, \<open>y[n][i]\<close> and returns. For
  an index outside the store nothing follows the header: with \<open>t_count = 0\<close> the call
  returns, otherwise it runs into the unchecked access \<open>parts[n]\<close>.
\<close>

theorem PrintTraj_lines:
  "(ready s \<and> 0 \<le> n \<and> nat n < length (parts s) \<longrightarrow>
      PrintTraj n s =
        (header # map (\<lambda>i. Row (t s ! i) (x (parts s ! nat n) ! i) (y (parts s ! nat n) ! i))
                    [0..<t_count s], Ok)) \<and>
   (\<not> (0 \<le> n \<and> nat n < length (parts s)) \<longrightarrow>
      PrintTraj n s = ([header], if t_count s = 0 then Ok else Undefined))"
proof (intro conjI impI)
  assume a: "ready s \<and> 0 \<le> n \<and> nat n < length (parts s)"
  then have "t_count s \<le> length (t s)"
    "t_count s \<le> length (x (parts s ! nat n))" "t_count s \<le> length (y (parts s ! nat n))"
    using ready_nth[of s "nat n"] by simp_all
  with a show "PrintTraj n s =
        (header # map (\<lambda>i. Row (t s ! i) (x (parts s ! nat n) ! i) (y (parts s ! nat n) ! i))
                    [0..<t_count s], Ok)"
    by (simp add: PrintTraj_def PrintTraj_loop_valid)
next
  assume "\<not> (0 \<le> n \<and> nat n < length (parts s))"
  then show "PrintTraj n s = ([header], if t_count s = 0 then Ok else Undefined)"
    by (simp add: PrintTraj_def PrintTraj_loop_invalid)
qed

theorem PrintTraj_lines_witness:
  "ready shear_EE \<and> (0::int) \<le> 1 \<and> nat 1 < length (parts shear_EE) \<and>
   PrintTraj 1 shear_EE =
     ([header, Row (Some 0) (Some 5) (Some 7), Row (Some 1) (Some 6) (Some 7)], Ok) \<and>
   \<not> (nat 2 < length (parts shear_EE)) \<and>
   PrintTraj 2 shear_EE = ([header], Undefined) \<and>
   PrintTraj (- 1) shear_EE = ([header], Undefined)"
  using PrintTraj_lines[of shear_EE 1] PrintTraj_lines[of shear_EE 2] PrintTraj_lines[of shear_EE "- 1"]
  by (simp add: ready_def shear_EE_def shear_def numeral_2_eq_2)

text \<open>
  C5 as stated fails: index 2 is outside a store of two particles, yet the header is
  printed and no \<open>OutOfRange\<close> condition is raised.
\<close>

theorem PrintTraj_no_OutOfRange:
  "length (parts shear_EE) \<le> nat 2 \<and>
   fst (PrintTraj 2 shear_EE) \<noteq> [] \<and> snd (PrintTraj 2 shear_EE) \<noteq> Raised OutOfRange"
  by (simp add: PrintTraj_def PrintTraj_loop.simps shear_EE_def shear_def)

text \<open>The object \<open>ExportData\<close> builds for one particle.\<close>

definition part_json :: "Particle \<Rightarrow> json" where
  "part_json p = JObj [(''x'', vec_json (x p)), (''y'', vec_json (y p))]"

lemma ExportData_body_x:
  "mod_key ''parts'' (mod_idx (length js) (mod_key ''x'' (assign X)))
           (JObj [(''t'', T), (''parts'', JArr js)]) =
         Some (JObj [(''t'', T), (''parts'', JArr (js @ [JObj [(''x'', X)]]))])"
  by (simp add: assign_def list_update_append)

lemma ExportData_body_y:
  "mod_key ''parts'' (mod_idx (length js) (mod_key ''y'' (assign Y)))
           (JObj [(''t'', T), (''parts'', JArr (js @ [JObj [(''x'', X)]]))]) =
         Some (JObj [(''t'', T), (''parts'', JArr (js @ [JObj [(''x'', X), (''y'', Y)]]))])"
  by (simp add: assign_def list_update_append)

lemma ExportData_body:
  assumes "n < length ps"
  shows "mod_key ''parts'' (mod_idx n (mod_key ''x'' (assign (vec_json (x (ps ! n))))))
           (JObj [(''t'', T), (''parts'', JArr (map part_json (take n ps)))]) =
         Some (JObj [(''t'', T), (''parts'', JArr (map part_json (take n ps) @
                                                [JObj [(''x'', vec_json (x (ps ! n)))]]))])"
    and "mod_key ''parts'' (mod_idx n (mod_key ''y'' (assign (vec_json (y (ps ! n))))))
           (JObj [(''t'', T), (''parts'', JArr (map part_json (take n ps) @
                                                [JObj [(''x'', vec_json (x (ps ! n)))]]))]) =
         Some (JObj [(''t'', T), (''parts'', JArr (map part_json (take (Suc n) ps)))])"
proof -
  have len: "length (map part_json (take n ps)) = n" using assms by simp
  show "mod_key ''parts'' (mod_idx n (mod_key ''x'' (assign (vec_json (x (ps ! n))))))
           (JObj [(''t'', T), (''parts'', JArr (map part_json (take n ps)))]) =
         Some (JObj [(''t'', T), (''parts'', JArr (map part_json (take n ps) @
                                                [JObj [(''x'', vec_json (x (ps ! n)))]]))])"
    using ExportData_body_x[of "map part_json (take n ps)"] len by simp
  have "map part_json (take (Suc n) ps) =
        map part_json (take n ps) @ [JObj [(''x'', vec_json (x (ps ! n))), (''y'', vec_json (y (ps ! n)))]]"
    using assms by (simp add: take_Suc_conv_app_nth part_json_def)
  then show "mod_key ''parts'' (mod_idx n (mod_key ''y'' (assign (vec_json (y (ps ! n))))))
           (JObj [(''t'', T), (''parts'', JArr (map part_json (take n ps) @
                                                [JObj [(''x'', vec_json (x (ps ! n)))]]))]) =
         Some (JObj [(''t'', T), (''parts'', JArr (map part_json (take (Suc n) ps)))])"
    using ExportData_body_y[of "map part_json (take n ps)"] len by simp
qed

lemma ExportData_loop_eq:
  assumes "n \<le> length (parts s)"
  shows "ExportData_loop n s (JObj [(''t'', T), (''parts'', JArr (map part_json (take n (parts s))))]) =
         Some (JObj [(''t'', T), (''parts'', JArr (map part_json (parts s)))])"
  using assms
proof (induction "length (parts s) - n" arbitrary: n)
  case 0
  then show ?case by (subst ExportData_loop.simps) simp
next
  case (Suc m)
  then have lt: "n < length (parts s)" by simp
  have step: "ExportData_loop n s (JObj [(''t'', T), (''parts'', JArr (map part_json (take n (parts s))))]) =
        ExportData_loop (Suc n) s (JObj [(''t'', T), (''parts'', JArr (map part_json (take (Suc n) (parts s))))])"
    by (subst ExportData_loop.simps) (simp only: lt ExportData_body[OF lt] if_True option.case)
  have "m = length (parts s) - Suc n" using Suc.hyps(2) by simp
  from Suc.hyps(1)[OF this] lt step show ?case by simp
qed

lemma ExportData_json_eq:
  "ExportData_json s =
     Some (JObj [(''t'', vec_json (t s)), (''parts'', JArr (map part_json (parts s)))])"
  using ExportData_loop_eq[of 0 s "vec_json (t s)"]
  by (simp add: ExportData_json_def assign_def)

text \<open>
  C6 (amended). When the path cannot be opened for writing, \<open>ExportData\<close> reports nothing:
  it returns normally and the files are as before. When the path can be opened, the call
  succeeds, the file at that path holds the document, and no other file and no
  permission has changed.
\<close>

theorem ExportData_file:
  "(\<not> writable fs p \<longrightarrow> ExportData p s fs = (Ok, fs)) \<and>
   (writable fs p \<longrightarrow>
      fst (ExportData p s fs) = Ok \<and>
      files (snd (ExportData p s fs)) p = ExportData_json s \<and>
      ExportData_json s \<noteq> None \<and>
      (\<forall>q. q \<noteq> p \<longrightarrow> files (snd (ExportData p s fs)) q = files fs q) \<and>
      writable (snd (ExportData p s fs)) = writable fs)"
  by (simp add: ExportData_def ExportData_json_eq)

definition locked :: filesystem where
  "locked = \<lparr>writable = (\<lambda>p. False), files = (\<lambda>p. None)\<rparr>"

definition open_disk :: filesystem where
  "open_disk = \<lparr>writable = (\<lambda>p. True), files = (\<lambda>p. None)\<rparr>"

theorem ExportData_file_witness:
  "\<not> writable locked ''out.json'' \<and>
   ExportData ''out.json'' shear_EE locked = (Ok, locked) \<and>
   writable open_disk ''out.json'' \<and>
   fst (ExportData ''out.json'' shear_EE open_disk) = Ok \<and>
   files (snd (ExportData ''out.json'' shear_EE open_disk)) ''out.json'' \<noteq> None \<and>
   files (snd (ExportData ''out.json'' shear_EE open_disk)) ''other.json'' = None"
  using ExportData_file[of locked "''out.json''" shear_EE]
        ExportData_file[of open_disk "''out.json''" shear_EE]
  by (simp add: locked_def open_disk_def)

text \<open>
  C6 as stated fails: on a path that cannot be opened the call raises no \<open>IOError\<close>.
\<close>

theorem ExportData_no_IOError:
  "\<not> writable locked ''out.json'' \<and>
   fst (ExportData ''out.json'' shear_EE locked) \<noteq> Raised IOError"
  by (simp add: ExportData_def ExportData_json_eq locked_def)

text \<open>
  C7. For a ready state and a writable path, the document that \<open>ExportData\<close> leaves in the
  file has under \<open>t\<close> an array of \<open>t_count\<close> numbers, entry \<open>i\<close> being \<open>t[i]\<close>, and under
  \<open>parts\<close> an array with one object per particle, in store order, whose \<open>x\<close> and \<open>y\<close> arrays
  have \<open>t_count + 1\<close> numbers each, entry \<open>k\<close> being the particle's \<open>x[k]\<close> and \<open>y[k]\<close>: reading
  the document back gives the values in memory.
\<close>

theorem ExportData_document:
  assumes "ready s" "writable fs p"
  shows "\<exists>doc ts ps.
           files (snd (ExportData p s fs)) p = Some doc \<and>
           obj_get ''t'' doc = Some (JArr ts) \<and>
           length ts = t_count s \<and>
           (\<forall>i < t_count s. ts ! i = JNum (t s ! i)) \<and>
           obj_get ''parts'' doc = Some (JArr ps) \<and>
           length ps = length (parts s) \<and>
           (\<forall>n < length (parts s). \<exists>xs ys.
              obj_get ''x'' (ps ! n) = Some (JArr xs) \<and>
              obj_get ''y'' (ps ! n) = Some (JArr ys) \<and>
              length xs = t_count s + 1 \<and> length ys = t_count s + 1 \<and>
              (\<forall>k \<le> t_count s. xs ! k = JNum (x (parts s ! n) ! k) \<and>
                                ys ! k = JNum (y (parts s ! n) ! k)))"
proof -
  let ?doc = "JObj [(''t'', vec_json (t s)), (''parts'', JArr (map part_json (parts s)))]"
  have f: "files (snd (ExportData p s fs)) p = Some ?doc"
    using assms(2) by (simp add: ExportData_def ExportData_json_eq)
  have t1: "obj_get ''t'' ?doc = Some (JArr (map JNum (t s)))"
    by (simp add: obj_get_def vec_json_def)
  have t2: "length (map JNum (t s)) = t_count s"
    using assms(1) by (simp add: ready_def)
  have t3: "\<forall>i < t_count s. map JNum (t s) ! i = JNum (t s ! i)"
    using assms(1) by (simp add: ready_def)
  have p1: "obj_get ''parts'' ?doc = Some (JArr (map part_json (parts s)))"
    by (simp add: obj_get_def)
  have p2: "length (map part_json (parts s)) = length (parts s)" by simp
  have p3: "\<forall>n < length (parts s). \<exists>xs ys.
              obj_get ''x'' (map part_json (parts s) ! n) = Some (JArr xs) \<and>
              obj_get ''y'' (map part_json (parts s) ! n) = Some (JArr ys) \<and>
              length xs = t_count s + 1 \<and> length ys = t_count s + 1 \<and>
              (\<forall>k \<le> t_count s. xs ! k = JNum (x (parts s ! n) ! k) \<and>
                                ys ! k = JNum (y (parts s ! n) ! k))"
  proof (intro allI impI)
    fix n assume n: "n < length (parts s)"
    let ?q = "parts s ! n"
    have "obj_get ''x'' (map part_json (parts s) ! n) = Some (JArr (map JNum (x ?q)))"
         "obj_get ''y'' (map part_json (parts s) ! n) = Some (JArr (map JNum (y ?q)))"
      using n by (simp_all add: obj_get_def part_json_def vec_json_def)
    moreover have "length (map JNum (x ?q)) = t_count s + 1" "length (map JNum (y ?q)) = t_count s + 1"
      using ready_nth[OF assms(1) n] by simp_all
    moreover have "\<forall>k \<le> t_count s. map JNum (x ?q) ! k = JNum (x ?q ! k) \<and>
                                     map JNum (y ?q) ! k = JNum (y ?q ! k)"
      using ready_nth[OF assms(1) n] by simp
    ultimately show "\<exists>xs ys.
              obj_get ''x'' (map part_json (parts s) ! n) = Some (JArr xs) \<and>
              obj_get ''y'' (map part_json (parts s) ! n) = Some (JArr ys) \<and>
              length xs = t_count s + 1 \<and> length ys = t_count s + 1 \<and>
              (\<forall>k \<le> t_count s. xs ! k = JNum (x (parts s ! n) ! k) \<and>
                                ys ! k = JNum (y (parts s ! n) ! k))"
      by blast
  qed
  from f t1 t2 t3 p1 p2 p3 show ?thesis by blast
qed

theorem ExportData_document_witness:
  "ready shear_EE \<and> writable open_disk ''out.json'' \<and>
   files (snd (ExportData ''out.json'' shear_EE open_disk)) ''out.json'' =
     Some (JObj [(''t'', JArr [JNum (Some 0), JNum (Some 1)]),
                 (''parts'', JArr [
                    JObj [(''x'', JArr [JNum (Some 0), JNum (Some 1), JNum (Some 2)]),
                          (''y'', JArr [JNum (Some 0), JNum (Some 0), JNum (Some 1)])],
                    JObj [(''x'', JArr [JNum (Some 5), JNum (Some 6), JNum (Some 7)]),
                          (''y'', JArr [JNum (Some 7), JNum (Some 7), JNum (Some 8)])]])])"
proof -
  have r: "ready shear_EE" by (simp add: ready_def shear_EE_def shear_def)
  have w: "writable open_disk ''out.json''" by (simp add: open_disk_def)
  from ExportData_document[OF r w] obtain doc where
    "files (snd (ExportData ''out.json'' shear_EE open_disk)) ''out.json'' = Some doc"
    by blast
  moreover have "files (snd (ExportData ''out.json'' shear_EE open_disk)) ''out.json'' =
     Some (JObj [(''t'', JArr [JNum (Some 0), JNum (Some 1)]),
                 (''parts'', JArr [
                    JObj [(''x'', JArr [JNum (Some 0), JNum (Some 1), JNum (Some 2)]),
                          (''y'', JArr [JNum (Some 0), JNum (Some 0), JNum (Some 1)])],
                    JObj [(''x'', JArr [JNum (Some 5), JNum (Some 6), JNum (Some 7)]),
                          (''y'', JArr [JNum (Some 7), JNum (Some 7), JNum (Some 8)])]])])"
    by (simp add: ExportData_def ExportData_json_def ExportData_loop.simps assign_def vec_json_def
        open_disk_def shear_EE_def shear_def)
  ultimately show ?thesis using r w by simp
qed

end
